theory Spec2Isabelle
  imports Complex_Main "HOL-Library.Product_Lexorder"
begin

section \<open>Data model of \<open>grep_ast.TreeContext\<close>\<close>

text \<open>
  Python integers are \<open>int\<close>. A Python \<open>str\<close> is a sequence of Unicode code points, so
  it is modelled as a list of code points (as Python's \<open>ord\<close> gives them): the markers
  the renderer emits are beyond one byte. Rows delivered by the parser
  (\<open>start_point[0]\<close>, \<open>end_point[0]\<close>) are unsigned, hence \<open>nat\<close>. Python sets are
  \<open>int set\<close>. Where the source iterates over a set and only gathers what it finds
  (padding, parent scopes, the scopes of a line), the model visits the members in
  ascending order. The loop of \<open>add_context\<close> that calls \<open>add_child_context\<close> is not of
  that kind: what one call reveals depends on what is shown already, so the order in
  which Python hands out the members of the set matters, and it is a parameter of the
  model. A raised exception is the left summand of the result.

  The parser and the language lookup are outside the file modelled here: the tree
  comes in as a \<open>node\<close>, the source text as its list of lines. \<open>grep\<close>, which only
  produces line numbers and highlighted text, and the tracing under \<open>verbose\<close> are left
  out.
\<close>

type_synonym pystr = "int list"

datatype py_error = IndexError | ValueError

datatype node = Node (start_line: nat) (end_line: nat) (children: "node list")

text \<open>\<open>xs[i]\<close> on a Python list: a negative index counts from the end, anything else
  out of range raises \<open>IndexError\<close>.\<close>

definition py_index :: "'a list \<Rightarrow> int \<Rightarrow> py_error + 'a" where
  "py_index xs i =
     (if 0 \<le> i \<and> i < int (length xs) then Inr (xs ! nat i)
      else if - int (length xs) \<le> i \<and> i < 0 then Inr (xs ! nat (int (length xs) + i))
      else Inl IndexError)"

text \<open>\<open>range(a, b)\<close> over Python integers.\<close>

definition py_range :: "int \<Rightarrow> int \<Rightarrow> int list" where
  "py_range a b = [a..b - 1]"

text \<open>The code points \<open>str.strip()\<close> removes; \<open>strip_true s\<close> says whether
  \<open>s.strip()\<close> is true, that is, whether some code point of \<open>s\<close> is not white space.\<close>

definition is_space :: "int \<Rightarrow> bool" where
  "is_space c \<longleftrightarrow>
     (9 \<le> c \<and> c \<le> 13) \<or> (28 \<le> c \<and> c \<le> 32) \<or> c = 133 \<or> c = 160 \<or> c = 5760 \<or>
     (8192 \<le> c \<and> c \<le> 8202) \<or> c = 8232 \<or> c = 8233 \<or> c = 8239 \<or> c = 8287 \<or> c = 12288"

definition strip_true :: "pystr \<Rightarrow> bool" where
  "strip_true s \<longleftrightarrow> \<not> list_all is_space s"

record config =
  color :: bool
  line_number :: bool
  parent_context :: bool
  child_context :: bool
  last_line :: bool
  margin :: int
  mark_lois :: bool
  header_max :: int
  show_top_of_file_parent_scope :: bool
  loi_pad :: int

definition default_config :: config where
  "default_config =
     \<lparr>color = False, line_number = False, parent_context = True, child_context = True,
      last_line = True, margin = 3, mark_lois = True, header_max = 10,
      show_top_of_file_parent_scope = True, loi_pad = 1\<rparr>"

record tree_context = config +
  lines :: "pystr list"
  num_lines :: int
  output_lines :: "int \<rightharpoonup> pystr"
  scopes :: "int set list"
  header :: "(int \<times> int) list"
  nodes :: "node list list"
  show_lines :: "int set"
  lines_of_interest :: "int set"
  done_parent_scopes :: "int set"

text \<open>The three per-line tables while \<open>walk_tree\<close> fills them: \<open>self.header[i]\<close> is
  then still the list of candidates \<open>(size, start_line, end_line)\<close>.\<close>

record index_tables =
  idx_nodes :: "node list list"
  idx_header :: "(int \<times> int \<times> int) list list"
  idx_scopes :: "int set list"

section \<open>Line-scope indexer\<close>

text \<open>\<open>for i in range(start_line, end_line + 1): self.scopes[i].add(start_line)\<close>\<close>

fun add_scope_range :: "int set list \<Rightarrow> nat \<Rightarrow> nat list \<Rightarrow> py_error + int set list" where
  "add_scope_range scs s [] = Inr scs"
| "add_scope_range scs s (i # rest) =
     (if i < length scs then add_scope_range (scs[i := insert (int s) (scs ! i)]) s rest
      else Inl IndexError)"

text \<open>\<open>walk_tree\<close> with \<open>verbose\<close> off (the trace it prints otherwise is not modelled).\<close>

fun walk_tree :: "node \<Rightarrow> index_tables \<Rightarrow> py_error + index_tables"
  and walk_children :: "node list \<Rightarrow> index_tables \<Rightarrow> py_error + index_tables" where
  "walk_tree (Node s e cs) t =
     (if \<not> s < length (idx_nodes t) then Inl IndexError
      else if int e - int s \<noteq> 0 \<and> \<not> s < length (idx_header t) then Inl IndexError
      else
        (case add_scope_range (idx_scopes t) s [s..<e + 1] of
           Inl err \<Rightarrow> Inl err
         | Inr scs \<Rightarrow>
             walk_children cs
               \<lparr>idx_nodes = (idx_nodes t)[s := idx_nodes t ! s @ [Node s e cs]],
                idx_header =
                  (if int e - int s \<noteq> 0
                   then (idx_header t)[s := idx_header t ! s @ [(int e - int s, int s, int e)]]
                   else idx_header t),
                idx_scopes = scs\<rparr>))"
| "walk_children [] t = Inr t"
| "walk_children (c # cs) t =
     (case walk_tree c t of Inl err \<Rightarrow> Inl err | Inr t' \<Rightarrow> walk_children cs t')"

text \<open>The loop body of \<open>__init__\<close> that turns the candidates of line \<open>i\<close> into its
  header: \<open>sorted\<close> orders the tuples lexicographically, ascending.\<close>

definition finalize_header :: "int \<Rightarrow> nat \<Rightarrow> (int \<times> int \<times> int) list \<Rightarrow> int \<times> int" where
  "finalize_header hmax i cands =
     (if length (sort cands) > 1
      then (case hd (sort cands) of
              (sz, head_start, head_end) \<Rightarrow>
                (head_start, if sz > hmax then head_start + hmax else head_end))
      else (int i, int i + 1))"

definition empty_tables :: "nat \<Rightarrow> index_tables" where
  "empty_tables n =
     \<lparr>idx_nodes = replicate n [], idx_header = replicate n [], idx_scopes = replicate n {}\<rparr>"

text \<open>\<open>TreeContext.__init__\<close>. The source text arrives split into \<open>lines\<close>, the parse
  tree as its root node; \<open>lang_known\<close> says whether \<open>filename_to_lang\<close> found a
  language (it raises \<open>ValueError\<close> otherwise). \<open>build_context\<close> is what \<open>__init__\<close>
  assigns once the walk has filled the tables \<open>t\<close>; its loop
  \<open>for i in range(self.num_lines)\<close> visits every entry of \<open>self.header\<close>, which has
  \<open>num_lines\<close> entries.\<close>

definition build_context :: "config \<Rightarrow> pystr list \<Rightarrow> index_tables \<Rightarrow> tree_context" where
  "build_context cfg code_lines t =
     \<lparr>color = color cfg, line_number = line_number cfg,
      parent_context = parent_context cfg, child_context = child_context cfg,
      last_line = last_line cfg, margin = margin cfg, mark_lois = mark_lois cfg,
      header_max = header_max cfg,
      show_top_of_file_parent_scope = show_top_of_file_parent_scope cfg,
      loi_pad = loi_pad cfg,
      lines = code_lines,
      num_lines = int (length code_lines) + 1,
      output_lines = Map.empty,
      scopes = idx_scopes t,
      header =
        map (\<lambda>(i, cands). finalize_header (header_max cfg) i cands)
          (enumerate 0 (idx_header t)),
      nodes = idx_nodes t,
      show_lines = {},
      lines_of_interest = {},
      done_parent_scopes = {}\<rparr>"

definition TreeContext_init ::
  "bool \<Rightarrow> pystr list \<Rightarrow> node \<Rightarrow> config \<Rightarrow> py_error + tree_context" where
  "TreeContext_init lang_known code_lines root_node cfg =
     (if \<not> lang_known then Inl ValueError
      else
        (case walk_tree root_node (empty_tables (length code_lines + 1)) of
           Inl err \<Rightarrow> Inl err
         | Inr t \<Rightarrow> Inr (build_context cfg code_lines t)))"

definition add_lines_of_interest :: "tree_context \<Rightarrow> int set \<Rightarrow> tree_context" where
  "add_lines_of_interest tc line_nums =
     tc\<lparr>lines_of_interest := lines_of_interest tc \<union> line_nums\<rparr>"

section \<open>Context expander\<close>

text \<open>\<open>max(node.end_point[0] for node in self.nodes[i])\<close>; \<open>max\<close> of an empty
  sequence raises \<open>ValueError\<close>.\<close>

definition get_last_line_of_scope :: "tree_context \<Rightarrow> int \<Rightarrow> py_error + int" where
  "get_last_line_of_scope tc i =
     (case py_index (nodes tc) i of
        Inl err \<Rightarrow> Inl err
      | Inr ns \<Rightarrow>
          (case ns of
             [] \<Rightarrow> Inl ValueError
           | n # rest \<Rightarrow> Inr (int (fold max (map end_line rest) (end_line n)))))"

text \<open>The header range of one enclosing scope, shown unless it starts at line 0 and
  top-of-file parent scopes are switched off.\<close>

definition show_header :: "tree_context \<Rightarrow> int \<Rightarrow> int \<Rightarrow> tree_context" where
  "show_header tc head_start head_end =
     (if head_start > 0 \<or> show_top_of_file_parent_scope tc
      then tc\<lparr>show_lines := show_lines tc \<union> set (py_range head_start head_end)\<rparr>
      else tc)"

text \<open>\<open>add_parent_scopes\<close>; the second function is its \<open>for line_num in self.scopes[i]\<close>
  loop over the members still to visit.\<close>

function add_parent_scopes :: "tree_context \<Rightarrow> int \<Rightarrow> py_error + tree_context"
  and add_parent_scopes_loop :: "tree_context \<Rightarrow> int list \<Rightarrow> py_error + tree_context" where
  "add_parent_scopes tc i =
     (if i \<in> done_parent_scopes tc then Inr tc
      else if i \<ge> int (length (scopes tc))
      then Inr (tc\<lparr>done_parent_scopes := insert i (done_parent_scopes tc)\<rparr>)
      else
        (case py_index (scopes tc) i of
           Inl err \<Rightarrow> Inl err
         | Inr sc \<Rightarrow>
             add_parent_scopes_loop
               (tc\<lparr>done_parent_scopes := insert i (done_parent_scopes tc)\<rparr>)
               (sorted_list_of_set sc)))"
| "add_parent_scopes_loop tc [] = Inr tc"
| "add_parent_scopes_loop tc (line_num # rest) =
     (case py_index (header tc) line_num of
        Inl err \<Rightarrow> Inl err
      | Inr hd_rng \<Rightarrow>
          (if last_line tc
           then
             (case get_last_line_of_scope tc line_num of
                Inl err \<Rightarrow> Inl err
              | Inr last_ln \<Rightarrow>
                  (case add_parent_scopes (show_header tc (fst hd_rng) (snd hd_rng)) last_ln of
                     Inl err \<Rightarrow> Inl err
                   | Inr tc' \<Rightarrow> add_parent_scopes_loop tc' rest))
           else add_parent_scopes_loop (show_header tc (fst hd_rng) (snd hd_rng)) rest))"
  by pat_completeness auto

lemma show_header_frame [simp]:
  "scopes (show_header tc a b) = scopes tc"
  "done_parent_scopes (show_header tc a b) = done_parent_scopes tc"
  "header (show_header tc a b) = header tc"
  "nodes (show_header tc a b) = nodes tc"
  "last_line (show_header tc a b) = last_line tc"
  "lines_of_interest (show_header tc a b) = lines_of_interest tc"
  by (simp_all add: show_header_def)

lemma add_parent_scopes_dom_frame:
  "add_parent_scopes_add_parent_scopes_loop_dom (Inl (tc, i)) \<Longrightarrow>
     add_parent_scopes tc i = Inr tc' \<Longrightarrow>
     scopes tc' = scopes tc \<and> done_parent_scopes tc \<subseteq> done_parent_scopes tc'"
  "add_parent_scopes_add_parent_scopes_loop_dom (Inr (tc, ls)) \<Longrightarrow>
     add_parent_scopes_loop tc ls = Inr tc' \<Longrightarrow>
     scopes tc' = scopes tc \<and> done_parent_scopes tc \<subseteq> done_parent_scopes tc'"
proof (induction tc i and tc ls arbitrary: tc' and tc'
    rule: add_parent_scopes_add_parent_scopes_loop.pinduct)
  case (1 tc i)
  from "1.prems" "1.hyps" show ?case
    using "1.IH"
    by (auto simp: add_parent_scopes.psimps split: if_splits sum.splits)
next
  case (2 tc)
  then show ?case by (simp add: add_parent_scopes_loop.psimps)
next
  case (3 tc line_num rest)
  show ?case
  proof (cases "last_line tc")
    case True
    with "3.prems" "3.hyps" obtain hr l tc1 where
      h: "py_index (header tc) line_num = Inr hr"
      and l: "get_last_line_of_scope tc line_num = Inr l"
      and a: "add_parent_scopes (show_header tc (fst hr) (snd hr)) l = Inr tc1"
      and r: "add_parent_scopes_loop tc1 rest = Inr tc'"
      by (auto simp: add_parent_scopes_loop.psimps split: sum.splits)
    from "3.IH"(1)[OF h True l a]
    have 1: "scopes tc1 = scopes tc" "done_parent_scopes tc \<subseteq> done_parent_scopes tc1"
      by simp_all
    from "3.IH"(2)[OF h True l a r] 1 show ?thesis by auto
  next
    case False
    with "3.prems" "3.hyps" obtain hr where
      h: "py_index (header tc) line_num = Inr hr"
      and r: "add_parent_scopes_loop (show_header tc (fst hr) (snd hr)) rest = Inr tc'"
      by (auto simp: add_parent_scopes_loop.psimps split: sum.splits)
    from "3.IH"(3)[OF h False r] show ?thesis by simp
  qed
qed

lemma valid_index_card_less:
  assumes "py_index xs i = Inr sc" and "\<not> int (length xs) \<le> i" and "i \<notin> D"
  shows "card ({- int (length xs)..<int (length xs)} - insert i D)
         < card ({- int (length xs)..<int (length xs)} - D)"
proof -
  have "- int (length xs) \<le> i"
    using assms(1) by (simp add: py_index_def split: if_splits)
  with assms have mem: "i \<in> {- int (length xs)..<int (length xs)} - D"
    by simp
  have "{- int (length xs)..<int (length xs)} - insert i D
        \<subset> {- int (length xs)..<int (length xs)} - D"
    using mem by blast
  then show ?thesis
    by (intro psubset_card_mono) simp_all
qed

lemma valid_index_card_mono:
  assumes "D \<subseteq> D'"
  shows "card ({- int n..<int n} - D') \<le> card ({- int n..<int n} - D)"
  by (rule card_mono) (use assms in auto)

termination add_parent_scopes
proof (relation
    "(\<lambda>x. case x of
            Inl (tc, i) \<Rightarrow>
              card ({- int (length (scopes tc))..<int (length (scopes tc))}
                    - done_parent_scopes tc)
          | Inr (tc, ls) \<Rightarrow>
              card ({- int (length (scopes tc))..<int (length (scopes tc))}
                    - done_parent_scopes tc))
     <*mlex*> measure (\<lambda>x. case x of Inl _ \<Rightarrow> 0 | Inr (tc, ls) \<Rightarrow> Suc (length ls))",
    goal_cases)
  case 1
  show ?case by (simp add: wf_mlex)
next
  case (2 tc i sc)
  show ?case
    using valid_index_card_less[OF 2(3) 2(2) 2(1)]
    by (intro mlex_less) (simp del: card_Diff_insert Diff_insert)
next
  case (3 tc line_num rest hr l)
  show ?case
    by (intro mlex_leq) simp_all
next
  case (4 tc line_num rest hr l tc1)
  from add_parent_scopes_dom_frame(1)[OF 4(5) 4(4)]
  have fr: "scopes tc1 = scopes tc" "done_parent_scopes tc \<subseteq> done_parent_scopes tc1"
    by simp_all
  show ?case
    using valid_index_card_mono[OF fr(2), of "length (scopes tc)"] fr(1)
    by (intro mlex_leq) simp_all
next
  case (5 tc line_num rest hr)
  show ?case
    by (intro mlex_leq) simp_all
qed

text \<open>\<open>find_all_children\<close>: the node followed by all its descendants, in pre-order.\<close>

fun find_all_children :: "node \<Rightarrow> node list"
  and find_all_children_list :: "node list \<Rightarrow> node list" where
  "find_all_children (Node s e cs) = Node s e cs # find_all_children_list cs"
| "find_all_children_list [] = []"
| "find_all_children_list (c # cs) = find_all_children c @ find_all_children_list cs"

text \<open>The \<open>for child in children\<close> loop of \<open>add_child_context\<close>, with its \<open>break\<close>.
  \<open>max_to_show\<close> is \<open>max(min(size * 0.10, 25), 5)\<close>, here an exact rational: the test
  compares the integer \<open>len(self.show_lines)\<close> with it, and the rounding of the float
  product never moves it across an integer.\<close>

fun add_child_context_loop ::
  "tree_context \<Rightarrow> nat \<Rightarrow> rat \<Rightarrow> node list \<Rightarrow> py_error + tree_context" where
  "add_child_context_loop tc currently_showing max_to_show [] = Inr tc"
| "add_child_context_loop tc currently_showing max_to_show (child # rest) =
     (if of_nat (card (show_lines tc)) > of_nat currently_showing + max_to_show then Inr tc
      else
        (case add_parent_scopes tc (int (start_line child)) of
           Inl err \<Rightarrow> Inl err
         | Inr tc' \<Rightarrow> add_child_context_loop tc' currently_showing max_to_show rest))"

text \<open>\<open>sorted(children, key=..., reverse=True)\<close>: descending by line span, stable.\<close>

definition sort_children :: "node list \<Rightarrow> node list" where
  "sort_children cs = sort_key (\<lambda>n. - (int (end_line n) - int (start_line n))) cs"

definition add_child_context :: "tree_context \<Rightarrow> int \<Rightarrow> py_error + tree_context" where
  "add_child_context tc i =
     (case py_index (nodes tc) i of
        Inl err \<Rightarrow> Inl err
      | Inr ns \<Rightarrow>
          if ns = [] then Inr tc
          else
            (case get_last_line_of_scope tc i of
               Inl err \<Rightarrow> Inl err
             | Inr last_ln \<Rightarrow>
                 if last_ln - i < 5
                 then Inr (tc\<lparr>show_lines := show_lines tc \<union> set (py_range i (last_ln + 1))\<rparr>)
                 else
                   add_child_context_loop tc (card (show_lines tc))
                     (max (min (of_int (last_ln - i) * (1 / 10)) 25) 5)
                     (sort_children (concat (map find_all_children ns)))))"

text \<open>First loop of \<open>close_small_gaps\<close>, over neighbours in \<open>sorted_show\<close>.\<close>

fun close_gaps_loop :: "int list \<Rightarrow> int set \<Rightarrow> int set" where
  "close_gaps_loop (a # b # rest) closed_show =
     close_gaps_loop (b # rest) (if b - a = 2 then insert (a + 1) closed_show else closed_show)"
| "close_gaps_loop [a] closed_show = closed_show"
| "close_gaps_loop [] closed_show = closed_show"

text \<open>Second loop of \<open>close_small_gaps\<close>, over \<open>enumerate(self.lines)\<close>; \<open>self.lines[i]\<close>
  is the enumerated line itself, \<open>self.lines[i + 1]\<close> is a subscript of its own.\<close>

fun blank_lines_loop ::
  "tree_context \<Rightarrow> (nat \<times> pystr) list \<Rightarrow> int set \<Rightarrow> py_error + int set" where
  "blank_lines_loop tc [] closed_show = Inr closed_show"
| "blank_lines_loop tc ((i, line) # rest) closed_show =
     (if int i \<notin> closed_show then blank_lines_loop tc rest closed_show
      else if \<not> strip_true line then blank_lines_loop tc rest closed_show
      else if \<not> int i < num_lines tc - 2 then blank_lines_loop tc rest closed_show
      else
        (case py_index (lines tc) (int i + 1) of
           Inl err \<Rightarrow> Inl err
         | Inr nxt \<Rightarrow>
             blank_lines_loop tc rest
               (if \<not> strip_true nxt then insert (int i + 1) closed_show else closed_show)))"

definition close_small_gaps :: "tree_context \<Rightarrow> py_error + tree_context" where
  "close_small_gaps tc =
     (case blank_lines_loop tc (enumerate 0 (lines tc))
             (close_gaps_loop (sorted_list_of_set (show_lines tc)) (show_lines tc)) of
        Inl err \<Rightarrow> Inl err
      | Inr closed_show \<Rightarrow> Inr (tc\<lparr>show_lines := closed_show\<rparr>))"

text \<open>The padding loops of \<open>add_context\<close>: the inner one over
  \<open>range(line - loi_pad, line + loi_pad + 1)\<close>, the outer one over \<open>list(self.show_lines)\<close>
  as it stood before padding.\<close>

fun pad_line :: "tree_context \<Rightarrow> int list \<Rightarrow> tree_context" where
  "pad_line tc [] = tc"
| "pad_line tc (new_line # rest) =
     (if new_line \<ge> num_lines tc \<or> new_line < 0 then pad_line tc rest
      else pad_line (tc\<lparr>show_lines := insert new_line (show_lines tc)\<rparr>) rest)"

fun pad_lines :: "tree_context \<Rightarrow> int list \<Rightarrow> tree_context" where
  "pad_lines tc [] = tc"
| "pad_lines tc (line # rest) =
     pad_lines (pad_line tc (py_range (line - loi_pad tc) (line + loi_pad tc + 1))) rest"

text \<open>\<open>for i in set(self.lines_of_interest): self.add_parent_scopes(i)\<close> and the same
  loop for \<open>add_child_context\<close>, each over the members in the order given.\<close>

fun parent_scopes_all :: "tree_context \<Rightarrow> int list \<Rightarrow> py_error + tree_context" where
  "parent_scopes_all tc [] = Inr tc"
| "parent_scopes_all tc (i # rest) =
     (case add_parent_scopes tc i of
        Inl err \<Rightarrow> Inl err
      | Inr tc' \<Rightarrow> parent_scopes_all tc' rest)"

fun child_context_all :: "tree_context \<Rightarrow> int list \<Rightarrow> py_error + tree_context" where
  "child_context_all tc [] = Inr tc"
| "child_context_all tc (i # rest) =
     (case add_child_context tc i of
        Inl err \<Rightarrow> Inl err
      | Inr tc' \<Rightarrow> child_context_all tc' rest)"

text \<open>The steps of \<open>add_context\<close>, in the order of the source.\<close>

definition step_pad :: "tree_context \<Rightarrow> tree_context" where
  "step_pad tc =
     (if loi_pad tc \<noteq> 0 then pad_lines tc (sorted_list_of_set (show_lines tc)) else tc)"

definition step_last_line :: "tree_context \<Rightarrow> py_error + tree_context" where
  "step_last_line tc =
     (if last_line tc
      then add_parent_scopes
             (tc\<lparr>show_lines := insert (num_lines tc - 2) (show_lines tc)\<rparr>) (num_lines tc - 2)
      else Inr tc)"

definition step_parents :: "tree_context \<Rightarrow> py_error + tree_context" where
  "step_parents tc =
     (if parent_context tc
      then parent_scopes_all tc (sorted_list_of_set (lines_of_interest tc))
      else Inr tc)"

text \<open>\<open>for i in set(self.lines_of_interest): self.add_child_context(i)\<close>. The list
  \<open>visit\<close> is the order in which the \<open>for\<close> statement is handed the members of
  \<open>set(self.lines_of_interest)\<close>: an enumeration of that set which the interpreter
  chooses and the program cannot see.\<close>

definition step_children :: "int list \<Rightarrow> tree_context \<Rightarrow> py_error + tree_context" where
  "step_children visit tc =
     (if child_context tc then child_context_all tc visit else Inr tc)"

definition step_margin :: "tree_context \<Rightarrow> tree_context" where
  "step_margin tc =
     (if margin tc \<noteq> 0
      then tc\<lparr>show_lines := show_lines tc \<union> set (py_range 0 (margin tc))\<rparr>
      else tc)"

text \<open>\<open>self.done_parent_scopes = set()\<close> and
  \<open>self.show_lines = set(self.lines_of_interest)\<close>.\<close>

definition reset_context :: "tree_context \<Rightarrow> tree_context" where
  "reset_context tc = tc\<lparr>done_parent_scopes := {}, show_lines := lines_of_interest tc\<rparr>"

text \<open>\<open>add_context\<close>, given the order \<open>visit\<close> in which its child-context loop visits
  the lines of interest.\<close>

definition add_context :: "int list \<Rightarrow> tree_context \<Rightarrow> py_error + tree_context" where
  "add_context visit tc =
     (if lines_of_interest tc = {} then Inr tc
      else
        (case step_last_line (step_pad (reset_context tc)) of
           Inl err \<Rightarrow> Inl err
         | Inr tc1 \<Rightarrow>
             (case step_parents tc1 of
                Inl err \<Rightarrow> Inl err
              | Inr tc2 \<Rightarrow>
                  (case step_children visit tc2 of
                     Inl err \<Rightarrow> Inl err
                   | Inr tc3 \<Rightarrow> close_small_gaps (step_margin tc3)))))"

section \<open>Renderer\<close>

text \<open>\<open>f"{n: 3}"\<close> for a positive \<open>n\<close>: a space for the sign, the decimal digits,
  padded with spaces on the left to width 3.\<close>

fun decimal :: "nat \<Rightarrow> pystr" where
  "decimal n =
     (if n < 10 then [48 + int n] else decimal (n div 10) @ [48 + int (n mod 10)])"

definition fmt3 :: "nat \<Rightarrow> pystr" where
  "fmt3 n = replicate (3 - length (32 # decimal n)) 32 @ 32 # decimal n"

definition sgr_reset :: pystr where "sgr_reset = [27, 91, 48, 109]"
definition sgr_red :: pystr where "sgr_red = [27, 91, 51, 49, 109]"
definition glyph_dots :: pystr where "glyph_dots = [8942]"
definition glyph_loi :: pystr where "glyph_loi = [9608]"
definition glyph_ctx :: pystr where "glyph_ctx = [9474]"

definition spacer :: "tree_context \<Rightarrow> nat \<Rightarrow> pystr" where
  "spacer tc i =
     (if int i \<in> lines_of_interest tc \<and> mark_lois tc
      then (if color tc then sgr_red @ glyph_loi @ sgr_reset else glyph_loi)
      else glyph_ctx)"

fun format_loop :: "tree_context \<Rightarrow> (nat \<times> pystr) list \<Rightarrow> bool \<Rightarrow> pystr \<Rightarrow> pystr" where
  "format_loop tc [] dots output = output"
| "format_loop tc ((i, line) # rest) dots output =
     (if int i \<notin> show_lines tc
      then
        (if dots
         then format_loop tc rest False
                (output @ (if line_number tc then fmt3 (i + 1) @ [46, 46, 46] @ glyph_dots
                                                  @ [46, 46, 46, 10]
                           else glyph_dots @ [10]))
         else format_loop tc rest dots output)
      else
        format_loop tc rest True
          (output
           @ (if line_number tc then fmt3 (i + 1) else [])
           @ spacer tc i
           @ (case output_lines tc (int i) of None \<Rightarrow> line | Some hl \<Rightarrow> hl)
           @ [10]))"

definition format :: "tree_context \<Rightarrow> pystr" where
  "format tc =
     (if show_lines tc = {} then []
      else format_loop tc (enumerate 0 (lines tc)) (0 \<notin> show_lines tc)
             (if color tc then sgr_reset @ [10] else []))"

section \<open>What the expander leaves alone, and what only grows\<close>

declare add_parent_scopes.simps [simp del]

definition frame :: "tree_context \<Rightarrow> tree_context" where
  "frame tc = tc\<lparr>show_lines := {}, done_parent_scopes := {}\<rparr>"

lemma frame_show_header [simp]: "frame (show_header tc a b) = frame tc"
  by (simp add: frame_def show_header_def)

lemma frame_upd [simp]:
  "frame (tc\<lparr>show_lines := S\<rparr>) = frame tc"
  "frame (tc\<lparr>done_parent_scopes := D\<rparr>) = frame tc"
  by (simp_all add: frame_def)

lemma frame_fields:
  assumes "frame a = frame b"
  shows "scopes a = scopes b" "header a = header b" "nodes a = nodes b"
    "lines a = lines b" "num_lines a = num_lines b" "output_lines a = output_lines b"
    "lines_of_interest a = lines_of_interest b"
    "color a = color b" "line_number a = line_number b" "parent_context a = parent_context b"
    "child_context a = child_context b" "last_line a = last_line b" "margin a = margin b"
    "mark_lois a = mark_lois b" "header_max a = header_max b"
    "show_top_of_file_parent_scope a = show_top_of_file_parent_scope b"
    "loi_pad a = loi_pad b"
proof -
  have "scopes (frame a) = scopes (frame b)" "header (frame a) = header (frame b)"
    "nodes (frame a) = nodes (frame b)" "lines (frame a) = lines (frame b)"
    "num_lines (frame a) = num_lines (frame b)" "output_lines (frame a) = output_lines (frame b)"
    "lines_of_interest (frame a) = lines_of_interest (frame b)"
    "color (frame a) = color (frame b)" "line_number (frame a) = line_number (frame b)"
    "parent_context (frame a) = parent_context (frame b)"
    "child_context (frame a) = child_context (frame b)"
    "last_line (frame a) = last_line (frame b)"
    "margin (frame a) = margin (frame b)"
    "mark_lois (frame a) = mark_lois (frame b)"
    "header_max (frame a) = header_max (frame b)"
    "show_top_of_file_parent_scope (frame a) = show_top_of_file_parent_scope (frame b)"
    "loi_pad (frame a) = loi_pad (frame b)"
    using assms by simp_all
  then show "scopes a = scopes b" "header a = header b" "nodes a = nodes b"
    "lines a = lines b" "num_lines a = num_lines b" "output_lines a = output_lines b"
    "lines_of_interest a = lines_of_interest b"
    "color a = color b" "line_number a = line_number b" "parent_context a = parent_context b"
    "child_context a = child_context b" "last_line a = last_line b" "margin a = margin b"
    "mark_lois a = mark_lois b" "header_max a = header_max b"
    "show_top_of_file_parent_scope a = show_top_of_file_parent_scope b"
    "loi_pad a = loi_pad b"
    by (simp_all add: frame_def)
qed

lemma show_header_mono: "show_lines tc \<subseteq> show_lines (show_header tc a b)"
  by (auto simp: show_header_def)

definition extends :: "tree_context \<Rightarrow> tree_context \<Rightarrow> bool" where
  "extends tc tc' \<longleftrightarrow>
     frame tc' = frame tc \<and> show_lines tc \<subseteq> show_lines tc' \<and>
     done_parent_scopes tc \<subseteq> done_parent_scopes tc'"

lemma extends_refl [simp]: "extends tc tc"
  by (simp add: extends_def)

lemma extends_trans [trans]: "extends a b \<Longrightarrow> extends b c \<Longrightarrow> extends a c"
  by (auto simp: extends_def)

lemma extends_show_header [simp]: "extends tc (show_header tc a b)"
  by (simp add: extends_def show_header_mono)

lemma add_parent_scopes_extends:
  "add_parent_scopes tc i = Inr tc' \<Longrightarrow> extends tc tc'"
  "add_parent_scopes_loop tc ls = Inr tc' \<Longrightarrow> extends tc tc'"
proof (induction tc i and tc ls arbitrary: tc' and tc'
    rule: add_parent_scopes_add_parent_scopes_loop.induct)
  case (1 tc i)
  show ?case
  proof (cases "i \<in> done_parent_scopes tc \<or> i \<ge> int (length (scopes tc))")
    case True
    with "1.prems" show ?thesis
      by (auto simp: add_parent_scopes.simps extends_def split: if_splits)
  next
    case False
    with "1.prems" obtain sc where
      s: "py_index (scopes tc) i = Inr sc"
      and l: "add_parent_scopes_loop
                (tc\<lparr>done_parent_scopes := insert i (done_parent_scopes tc)\<rparr>)
                (sorted_list_of_set sc) = Inr tc'"
      by (auto simp: add_parent_scopes.simps split: sum.splits)
    from False have "i \<notin> done_parent_scopes tc" "\<not> int (length (scopes tc)) \<le> i"
      by auto
    from "1.IH"[OF this s l] show ?thesis
      by (auto simp: extends_def)
  qed
next
  case (2 tc)
  then show ?case by simp
next
  case (3 tc line_num rest)
  show ?case
  proof (cases "last_line tc")
    case True
    with "3.prems" obtain hr l tc1 where
      h: "py_index (header tc) line_num = Inr hr"
      and l: "get_last_line_of_scope tc line_num = Inr l"
      and a: "add_parent_scopes (show_header tc (fst hr) (snd hr)) l = Inr tc1"
      and r: "add_parent_scopes_loop tc1 rest = Inr tc'"
      by (auto split: sum.splits)
    from "3.IH"(1)[OF h True l a] have "extends tc tc1"
      using extends_trans extends_show_header by blast
    with "3.IH"(2)[OF h True l a r] show ?thesis
      using extends_trans by blast
  next
    case False
    with "3.prems" obtain hr where
      h: "py_index (header tc) line_num = Inr hr"
      and r: "add_parent_scopes_loop (show_header tc (fst hr) (snd hr)) rest = Inr tc'"
      by (auto split: sum.splits)
    from "3.IH"(3)[OF h False r] show ?thesis
      using extends_trans extends_show_header by blast
  qed
qed

lemma add_child_context_loop_extends:
  "add_child_context_loop tc cs m chs = Inr tc' \<Longrightarrow> extends tc tc'"
proof (induction chs arbitrary: tc)
  case Nil
  then show ?case by simp
next
  case (Cons child rest)
  show ?case
  proof (cases "of_nat (card (show_lines tc)) > of_nat cs + m")
    case True
    with Cons.prems show ?thesis by simp
  next
    case False
    with Cons.prems obtain tc1 where
      a: "add_parent_scopes tc (int (start_line child)) = Inr tc1"
      and r: "add_child_context_loop tc1 cs m rest = Inr tc'"
      by (auto split: sum.splits)
    from add_parent_scopes_extends(1)[OF a] Cons.IH[OF r] show ?thesis
      by (rule extends_trans)
  qed
qed

lemma add_child_context_extends:
  assumes "add_child_context tc i = Inr tc'"
  shows "extends tc tc'"
  using assms
  by (auto simp: add_child_context_def extends_def[of tc "tc\<lparr>show_lines := _\<rparr>"]
      split: sum.splits if_splits dest: add_child_context_loop_extends)

lemma parent_scopes_all_extends:
  "parent_scopes_all tc ls = Inr tc' \<Longrightarrow> extends tc tc'"
proof (induction ls arbitrary: tc)
  case Nil
  then show ?case by simp
next
  case (Cons i rest)
  then obtain tc1 where a: "add_parent_scopes tc i = Inr tc1"
    and r: "parent_scopes_all tc1 rest = Inr tc'"
    by (auto split: sum.splits)
  from add_parent_scopes_extends(1)[OF a] Cons.IH[OF r] show ?case
    by (rule extends_trans)
qed

lemma child_context_all_extends:
  "child_context_all tc ls = Inr tc' \<Longrightarrow> extends tc tc'"
proof (induction ls arbitrary: tc)
  case Nil
  then show ?case by simp
next
  case (Cons i rest)
  then obtain tc1 where a: "add_child_context tc i = Inr tc1"
    and r: "child_context_all tc1 rest = Inr tc'"
    by (auto split: sum.splits)
  from add_child_context_extends[OF a] Cons.IH[OF r] show ?case
    by (rule extends_trans)
qed

lemma pad_line_extends: "extends tc (pad_line tc ls)"
proof (induction ls arbitrary: tc)
  case Nil
  show ?case by simp
next
  case (Cons x ls)
  have "extends tc (tc\<lparr>show_lines := insert x (show_lines tc)\<rparr>)"
    by (auto simp: extends_def)
  with Cons[of "tc\<lparr>show_lines := insert x (show_lines tc)\<rparr>"] Cons[of tc]
  show ?case by (auto intro: extends_trans)
qed

lemma pad_lines_extends: "extends tc (pad_lines tc ls)"
proof (induction ls arbitrary: tc)
  case Nil
  show ?case by simp
next
  case (Cons x ls)
  show ?case
    using pad_line_extends Cons extends_trans by (simp, blast)
qed

lemma step_pad_extends: "extends tc (step_pad tc)"
  by (simp add: step_pad_def pad_lines_extends)

lemma step_margin_extends: "extends tc (step_margin tc)"
  by (auto simp: step_margin_def extends_def)

lemma step_last_line_extends: "step_last_line tc = Inr tc' \<Longrightarrow> extends tc tc'"
proof -
  assume a: "step_last_line tc = Inr tc'"
  show ?thesis
  proof (cases "last_line tc")
    case True
    have "extends tc (tc\<lparr>show_lines := insert (num_lines tc - 2) (show_lines tc)\<rparr>)"
      by (auto simp: extends_def)
    moreover from a True
    have "extends (tc\<lparr>show_lines := insert (num_lines tc - 2) (show_lines tc)\<rparr>) tc'"
      by (auto simp: step_last_line_def dest: add_parent_scopes_extends(1))
    ultimately show ?thesis by (rule extends_trans)
  next
    case False
    with a show ?thesis by (simp add: step_last_line_def)
  qed
qed

lemma step_parents_extends: "step_parents tc = Inr tc' \<Longrightarrow> extends tc tc'"
  by (auto simp: step_parents_def split: if_splits dest: parent_scopes_all_extends)

lemma step_children_extends: "step_children visit tc = Inr tc' \<Longrightarrow> extends tc tc'"
  by (auto simp: step_children_def split: if_splits dest: child_context_all_extends)

lemma close_gaps_loop_mono: "cl \<subseteq> close_gaps_loop xs cl"
  by (induction xs cl rule: close_gaps_loop.induct) auto

lemma blank_lines_loop_mono:
  "blank_lines_loop tc ls cl = Inr cl' \<Longrightarrow> cl \<subseteq> cl'"
proof (induction tc ls cl rule: blank_lines_loop.induct)
  case (1 tc closed_show)
  then show ?case by simp
next
  case (2 tc i line rest closed_show)
  then show ?case
    by (auto split: if_splits sum.splits)
qed

lemma close_small_gaps_extends: "close_small_gaps tc = Inr tc' \<Longrightarrow> extends tc tc'"
  using close_gaps_loop_mono[of "show_lines tc" "sorted_list_of_set (show_lines tc)"]
  by (auto simp: close_small_gaps_def extends_def split: sum.splits
      dest!: blank_lines_loop_mono)

lemma add_context_extends:
  assumes "add_context visit tc = Inr tc'" and "lines_of_interest tc \<noteq> {}"
  shows "extends (reset_context tc) tc'"
proof -
  from assms obtain tc1 tc2 tc3 where
    1: "step_last_line (step_pad (reset_context tc)) = Inr tc1"
    and 2: "step_parents tc1 = Inr tc2"
    and 3: "step_children visit tc2 = Inr tc3"
    and 4: "close_small_gaps (step_margin tc3) = Inr tc'"
    by (auto simp: add_context_def split: sum.splits)
  have "extends (reset_context tc) tc1"
    using step_pad_extends step_last_line_extends[OF 1] by (rule extends_trans)
  also have "extends tc1 tc2" by (rule step_parents_extends[OF 2])
  also have "extends tc2 tc3" by (rule step_children_extends[OF 3])
  also have "extends tc3 (step_margin tc3)" by (rule step_margin_extends)
  also have "extends (step_margin tc3) tc'" by (rule close_small_gaps_extends[OF 4])
  finally show ?thesis .
qed

lemma frame_reset_context [simp]: "frame (reset_context tc) = frame tc"
  by (simp add: reset_context_def frame_def)



section \<open>Gap closing\<close>

lemma close_gaps_loop_set:
  "sorted xs \<Longrightarrow> distinct xs \<Longrightarrow>
     close_gaps_loop xs cl = cl \<union> {x. x - 1 \<in> set xs \<and> x + 1 \<in> set xs \<and> x \<notin> set xs}"
proof (induction xs cl rule: close_gaps_loop.induct)
  case (1 a b rest cl)
  from "1.prems" have ab: "a < b" and rest: "\<forall>y\<in>set rest. b < y"
    by (auto simp: less_le)
  have sd: "sorted (b # rest)" "distinct (b # rest)"
    using "1.prems" by auto
  have new: "{x. x - 1 \<in> set (a # b # rest) \<and> x + 1 \<in> set (a # b # rest)
                 \<and> x \<notin> set (a # b # rest)}
             = (if b - a = 2 then {a + 1} else {})
               \<union> {x. x - 1 \<in> set (b # rest) \<and> x + 1 \<in> set (b # rest) \<and> x \<notin> set (b # rest)}"
    using ab rest by (auto; force)
  show ?case
    unfolding new using "1.IH"[OF sd] by auto
next
  case (2 a cl)
  then show ?case by auto
next
  case (3 cl)
  then show ?case by simp
qed

lemma close_gaps_loop_show:
  assumes "finite S"
  shows "close_gaps_loop (sorted_list_of_set S) S = S \<union> {x. x - 1 \<in> S \<and> x + 1 \<in> S}"
  using close_gaps_loop_set[of "sorted_list_of_set S" S] assms by auto

lemma py_index_succ:
  "py_index xs (int i + 1) = Inr y \<Longrightarrow> Suc i < length xs \<and> y = xs ! Suc i"
  by (auto simp: py_index_def nat_add_distrib split: if_splits)

lemma blank_lines_loop_new:
  assumes "blank_lines_loop tc ls cl = Inr cl'"
    and "\<forall>(j, l)\<in>set ls. j < length (lines tc) \<and> l = lines tc ! j"
    and "x \<in> cl'" and "x \<notin> cl"
  shows "0 < x \<and> x < int (length (lines tc)) \<and> x - 1 \<in> cl \<and>
         strip_true (lines tc ! nat (x - 1)) \<and> \<not> strip_true (lines tc ! nat x)"
  using assms
proof (induction tc ls cl rule: blank_lines_loop.induct)
  case (1 tc closed_show)
  then show ?case by simp
next
  case (2 tc i line rest closed_show)
  from "2.prems"(2) have il: "i < length (lines tc)" "line = lines tc ! i"
    and rest: "\<forall>(j, l)\<in>set rest. j < length (lines tc) \<and> l = lines tc ! j"
    by auto
  show ?case
  proof (cases "int i \<in> closed_show \<and> strip_true line \<and> int i < num_lines tc - 2")
    case False
    then have "blank_lines_loop tc rest closed_show = Inr cl'"
      using "2.prems"(1) by (auto split: if_splits)
    with False "2.IH"(1,2,3) rest "2.prems"(3,4) show ?thesis
      by (auto split: if_splits)
  next
    case True
    with "2.prems"(1) obtain nxt where
      n: "py_index (lines tc) (int i + 1) = Inr nxt"
      and r: "blank_lines_loop tc rest
                (if \<not> strip_true nxt then insert (int i + 1) closed_show else closed_show)
              = Inr cl'"
      by (auto split: sum.splits)
    from py_index_succ[OF n] have nx: "Suc i < length (lines tc)" "nxt = lines tc ! Suc i"
      by auto
    show ?thesis
    proof (cases "x \<in> (if \<not> strip_true nxt then insert (int i + 1) closed_show
                         else closed_show)")
      case True
      with "2.prems"(4) have "x = int i + 1" "\<not> strip_true nxt"
        by (auto split: if_splits)
      with \<open>int i \<in> closed_show \<and> strip_true line \<and> int i < num_lines tc - 2\<close> nx il
      show ?thesis by (simp add: nat_add_distrib)
    next
      case False
      from True have c: "int i \<in> closed_show" "strip_true line" "int i < num_lines tc - 2"
        by auto
      from "2.IH"(4)[OF _ _ _ n r rest "2.prems"(3) False] c
      have ih: "0 < x \<and> x < int (length (lines tc)) \<and>
            x - 1 \<in> (if \<not> strip_true nxt then insert (int i + 1) closed_show else closed_show)
            \<and> strip_true (lines tc ! nat (x - 1)) \<and> \<not> strip_true (lines tc ! nat x)"
        by simp
      have "x - 1 \<in> closed_show"
      proof (rule ccontr)
        assume "x - 1 \<notin> closed_show"
        with ih have "x - 1 = int i + 1" "\<not> strip_true nxt"
          by (auto split: if_splits)
        with ih nx show False by (simp add: nat_add_distrib)
      qed
      with ih show ?thesis by simp
    qed
  qed
qed

lemma enumerate_lines:
  "\<forall>(j, l)\<in>set (enumerate 0 xs). j < length xs \<and> l = xs ! j"
  by (auto simp: in_set_enumerate_eq)

section \<open>Child context of a small scope\<close>

lemma fold_max_ge:
  "(m::nat) \<le> fold max xs m \<and> (\<forall>x\<in>set xs. x \<le> fold max xs m)"
proof (induction xs arbitrary: m)
  case Nil
  show ?case by simp
next
  case (Cons y ys)
  from Cons[of "max y m"] show ?case by auto
qed

lemma fold_max_mem: "fold max xs (m::nat) \<in> insert m (set xs)"
proof (induction xs arbitrary: m)
  case Nil
  show ?case by simp
next
  case (Cons y ys)
  from Cons[of "max y m"] show ?case by (auto simp: max_def split: if_splits)
qed

lemma get_last_line_of_scope_max:
  assumes "get_last_line_of_scope tc i = Inr e"
  shows "\<exists>ns. py_index (nodes tc) i = Inr ns \<and> (\<exists>n\<in>set ns. e = int (end_line n)) \<and>
              (\<forall>n\<in>set ns. int (end_line n) \<le> e)"
proof -
  from assms obtain n rest where ix: "py_index (nodes tc) i = Inr (n # rest)"
    and e: "e = int (fold max (map end_line rest) (end_line n))"
    by (auto simp: get_last_line_of_scope_def split: sum.splits list.splits)
  from fold_max_ge[of "end_line n" "map end_line rest"]
       fold_max_mem[of "map end_line rest" "end_line n"] ix e
  show ?thesis by auto
qed

lemma py_index_in_range:
  "0 \<le> i \<Longrightarrow> i < int (length xs) \<Longrightarrow> py_index xs i = Inr (xs ! nat i)"
  by (simp add: py_index_def)

lemma set_py_range [simp]: "set (py_range a b) = {a..<b}"
  by (auto simp: py_range_def)

lemma add_child_context_small:
  assumes "add_child_context tc i = Inr tc'"
    and "0 \<le> i" and "i < int (length (nodes tc))" and "nodes tc ! nat i \<noteq> []"
    and "\<forall>n\<in>set (nodes tc ! nat i). int (end_line n) - i < 5"
  shows "\<forall>n\<in>set (nodes tc ! nat i). {i..int (end_line n)} \<subseteq> show_lines tc'"
proof -
  have ix: "py_index (nodes tc) i = Inr (nodes tc ! nat i)"
    using assms(2,3) by (rule py_index_in_range)
  with assms(1,4) obtain e where e: "get_last_line_of_scope tc i = Inr e"
    by (auto simp: add_child_context_def split: sum.splits)
  from get_last_line_of_scope_max[OF e] ix
  have mem: "\<exists>n\<in>set (nodes tc ! nat i). e = int (end_line n)"
    and ub: "\<forall>n\<in>set (nodes tc ! nat i). int (end_line n) \<le> e"
    by auto
  from mem assms(5) have "e - i < 5" by auto
  with assms(1,4) ix e have "tc' = tc\<lparr>show_lines := show_lines tc \<union> set (py_range i (e + 1))\<rparr>"
    by (simp add: add_child_context_def)
  with ub show ?thesis by auto
qed

lemma child_context_all_visits:
  assumes "child_context_all tc ls = Inr tc'" and "i \<in> set ls"
  shows "\<exists>ta tb. extends tc ta \<and> add_child_context ta i = Inr tb \<and> extends tb tc'"
  using assms
proof (induction ls arbitrary: tc)
  case Nil
  then show ?case by simp
next
  case (Cons j rest)
  from Cons.prems(1) obtain t1 where a: "add_child_context tc j = Inr t1"
    and r: "child_context_all t1 rest = Inr tc'"
    by (auto split: sum.splits)
  show ?case
  proof (cases "i = j")
    case True
    with a child_context_all_extends[OF r] show ?thesis
      by (intro exI[of _ tc] exI[of _ t1]) simp
  next
    case False
    with Cons.prems(2) have "i \<in> set rest" by simp
    from Cons.IH[OF r this] obtain ta tb where
      "extends t1 ta" "add_child_context ta i = Inr tb" "extends tb tc'"
      by blast
    with add_child_context_extends[OF a] show ?thesis
      using extends_trans by blast
  qed
qed

section \<open>Rendering reads the show set on the real lines only\<close>

lemma spacer_show [simp]: "spacer (tc\<lparr>show_lines := S\<rparr>) i = spacer tc i"
  by (simp add: spacer_def)

lemma format_loop_show:
  assumes "\<forall>(i, l)\<in>set ls. (int i \<in> S) = (int i \<in> show_lines tc)"
  shows "format_loop (tc\<lparr>show_lines := S\<rparr>) ls dots out = format_loop tc ls dots out"
  using assms
proof (induction ls arbitrary: dots out)
  case Nil
  show ?case by simp
next
  case (Cons p ls)
  obtain i l where p: "p = (i, l)" by (cases p)
  from Cons.prems p have here: "(int i \<in> S) = (int i \<in> show_lines tc)"
    and rest: "\<forall>(i, l)\<in>set ls. (int i \<in> S) = (int i \<in> show_lines tc)"
    by auto
  show ?case
    unfolding p using here Cons.IH[OF rest] by simp
qed

section \<open>What the walk records\<close>

lemma add_scope_range_nth:
  "add_scope_range scs s is = Inr scs' \<Longrightarrow>
     length scs' = length scs \<and> (\<forall>i\<in>set is. i < length scs) \<and>
     (\<forall>i<length scs. scs' ! i = (if i \<in> set is then insert (int s) (scs ! i) else scs ! i))"
proof (induction scs s "is" rule: add_scope_range.induct)
  case (1 scs s)
  then show ?case by simp
next
  case (2 scs s i rest)
  from "2.prems" have i: "i < length scs"
    and r: "add_scope_range (scs[i := insert (int s) (scs ! i)]) s rest = Inr scs'"
    by (auto split: if_splits)
  from "2.IH"[OF i r] i show ?case
    by (auto simp: nth_list_update)
qed

definition tables_ok :: "index_tables \<Rightarrow> bool" where
  "tables_ok t \<longleftrightarrow>
     length (idx_nodes t) = length (idx_scopes t) \<and>
     (\<forall>i<length (idx_scopes t). \<forall>s\<in>idx_scopes t ! i.
        0 \<le> s \<and> s \<le> int i \<and> (\<exists>n\<in>set (idx_nodes t ! nat s). int i \<le> int (end_line n)))"

lemma walk_tree_tables_ok:
  "walk_tree nd t = Inr t' \<Longrightarrow> tables_ok t \<Longrightarrow>
     tables_ok t' \<and> length (idx_scopes t') = length (idx_scopes t)"
  "walk_children nds t = Inr t' \<Longrightarrow> tables_ok t \<Longrightarrow>
     tables_ok t' \<and> length (idx_scopes t') = length (idx_scopes t)"
proof (induction nd t and nds t arbitrary: t' and t' rule: walk_tree_walk_children.induct)
  case (1 s e cs t)
  let ?n = "length (idx_scopes t)"
  from "1.prems"(1) obtain scs where
    sn: "s < length (idx_nodes t)"
    and hn: "e = s \<or> s < length (idx_header t)"
    and a: "add_scope_range (idx_scopes t) s [s..<e + 1] = Inr scs"
    and w: "walk_children cs
              \<lparr>idx_nodes = (idx_nodes t)[s := idx_nodes t ! s @ [Node s e cs]],
               idx_header =
                 (if int e - int s \<noteq> 0
                  then (idx_header t)[s := idx_header t ! s @ [(int e - int s, int s, int e)]]
                  else idx_header t),
               idx_scopes = scs\<rparr> = Inr t'"
    by (auto split: if_splits sum.splits)
  let ?t1 = "\<lparr>idx_nodes = (idx_nodes t)[s := idx_nodes t ! s @ [Node s e cs]],
               idx_header =
                 (if int e - int s \<noteq> 0
                  then (idx_header t)[s := idx_header t ! s @ [(int e - int s, int s, int e)]]
                  else idx_header t),
               idx_scopes = scs\<rparr>"
  from add_scope_range_nth[OF a] have len: "length scs = ?n"
    and nth: "\<forall>i<?n. scs ! i = (if s \<le> i \<and> i \<le> e then insert (int s) (idx_scopes t ! i)
                                   else idx_scopes t ! i)"
    by auto
  from "1.prems"(2) have ln: "length (idx_nodes t) = ?n"
    and old: "\<forall>i<?n. \<forall>x\<in>idx_scopes t ! i.
        0 \<le> x \<and> x \<le> int i \<and> (\<exists>n\<in>set (idx_nodes t ! nat x). int i \<le> int (end_line n))"
    by (auto simp: tables_ok_def)
  have grow: "set (idx_nodes t ! j) \<subseteq> set ((idx_nodes t)[s := idx_nodes t ! s @ [Node s e cs]] ! j)"
    if "j < ?n" for j
    using that ln by (cases "j = s") (auto simp: nth_list_update)
  have new: "0 \<le> x \<and> x \<le> int i \<and> (\<exists>n\<in>set (idx_nodes ?t1 ! nat x). int i \<le> int (end_line n))"
    if i: "i < ?n" and x: "x \<in> scs ! i" for i x
  proof (cases "x \<in> idx_scopes t ! i")
    case True
    with old i obtain n where o: "0 \<le> x" "x \<le> int i"
      and n: "n \<in> set (idx_nodes t ! nat x)" "int i \<le> int (end_line n)"
      by blast
    from o i have "nat x < ?n" by simp
    from grow[OF this] n o show ?thesis by auto
  next
    case False
    with x nth i have xs: "x = int s" and r: "s \<le> i" "i \<le> e"
      by (auto split: if_splits)
    with sn ln show ?thesis
      by (auto simp: nth_list_update)
  qed
  have ok1: "tables_ok ?t1"
    unfolding tables_ok_def using ln len new by simp
  from "1.IH"[OF _ _ a w ok1] sn hn len show ?case
    by auto
next
  case (2 t)
  then show ?case by simp
next
  case (3 c cs t)
  from "3.prems"(1) obtain t1 where c: "walk_tree c t = Inr t1"
    and r: "walk_children cs t1 = Inr t'"
    by (auto split: sum.splits)
  from "3.IH"(1)[OF c "3.prems"(2)] "3.IH"(2)[OF c r] show ?case
    by simp
qed

lemma tables_ok_empty: "tables_ok (empty_tables n)"
  by (simp add: tables_ok_def empty_tables_def)

text \<open>The header candidates \<open>walk_tree\<close> records for line \<open>i\<close>: one for every node of the
  tree, in the order of the traversal, that starts on \<open>i\<close> and ends on another row.\<close>

definition candidates_of :: "node list \<Rightarrow> nat \<Rightarrow> (int \<times> int \<times> int) list" where
  "candidates_of ns i =
     map (\<lambda>n. (int (end_line n) - int (start_line n), int (start_line n), int (end_line n)))
       (filter (\<lambda>n. start_line n = i \<and> int (end_line n) - int (start_line n) \<noteq> 0) ns)"

definition header_candidates :: "node \<Rightarrow> nat \<Rightarrow> (int \<times> int \<times> int) list" where
  "header_candidates root_node i = candidates_of (find_all_children root_node) i"

lemma candidates_of_append [simp]:
  "candidates_of (xs @ ys) i = candidates_of xs i @ candidates_of ys i"
  by (simp add: candidates_of_def)

lemma candidates_of_Nil [simp]: "candidates_of [] i = []"
  by (simp add: candidates_of_def)

lemma walk_tree_header:
  "walk_tree nd t = Inr t' \<Longrightarrow>
     length (idx_header t') = length (idx_header t) \<and>
     (\<forall>i<length (idx_header t).
        idx_header t' ! i = idx_header t ! i @ candidates_of (find_all_children nd) i)"
  "walk_children nds t = Inr t' \<Longrightarrow>
     length (idx_header t') = length (idx_header t) \<and>
     (\<forall>i<length (idx_header t).
        idx_header t' ! i = idx_header t ! i @ candidates_of (find_all_children_list nds) i)"
proof (induction nd t and nds t arbitrary: t' and t' rule: walk_tree_walk_children.induct)
  case (1 s e cs t)
  let ?h1 = "(if int e - int s \<noteq> 0
              then (idx_header t)[s := idx_header t ! s @ [(int e - int s, int s, int e)]]
              else idx_header t)"
  from "1.prems" obtain scs where
    sn: "s < length (idx_nodes t)"
    and hn: "e = s \<or> s < length (idx_header t)"
    and a: "add_scope_range (idx_scopes t) s [s..<e + 1] = Inr scs"
    and w: "walk_children cs
              \<lparr>idx_nodes = (idx_nodes t)[s := idx_nodes t ! s @ [Node s e cs]],
               idx_header = ?h1, idx_scopes = scs\<rparr> = Inr t'"
    by (auto split: if_splits sum.splits)
  from "1.IH"[OF _ _ a w] sn hn
  have len: "length (idx_header t') = length ?h1"
    and nth: "\<forall>i<length ?h1. idx_header t' ! i = ?h1 ! i @ candidates_of (find_all_children_list cs) i"
    by auto
  have h1: "?h1 ! i = idx_header t ! i @ candidates_of [Node s e cs] i"
    if "i < length (idx_header t)" for i
    using that by (auto simp: candidates_of_def nth_list_update)
  have "idx_header t' ! i
        = idx_header t ! i @ candidates_of (find_all_children (Node s e cs)) i"
    if i: "i < length (idx_header t)" for i
  proof -
    from i have "i < length ?h1" by simp
    with nth have "idx_header t' ! i = ?h1 ! i @ candidates_of (find_all_children_list cs) i"
      by blast
    with h1[OF i] show ?thesis
      by (simp add: candidates_of_def)
  qed
  with len show ?case by simp
next
  case (2 t)
  then show ?case by simp
next
  case (3 c cs t)
  from "3.prems" obtain t1 where c: "walk_tree c t = Inr t1"
    and r: "walk_children cs t1 = Inr t'"
    by (auto split: sum.splits)
  from "3.IH"(1)[OF c] "3.IH"(2)[OF c r] show ?case
    by simp
qed

lemma walk_tree_candidates:
  assumes "walk_tree root_node (empty_tables n) = Inr t" and "i < n"
  shows "length (idx_header t) = n \<and> idx_header t ! i = header_candidates root_node i"
  using walk_tree_header(1)[OF assms(1)] assms(2)
  by (simp add: empty_tables_def header_candidates_def)

lemma hd_sort_least:
  assumes "xs \<noteq> []"
  shows "hd (sort xs) \<in> set xs \<and> (\<forall>x\<in>set xs. hd (sort xs) \<le> x)"
proof -
  from assms have ne: "sort xs \<noteq> []"
    by (metis length_0_conv length_sort)
  then obtain y ys where s: "sort xs = y # ys" by (cases "sort xs") auto
  have "sorted (y # ys)" "set (y # ys) = set xs"
    using s sorted_sort[of xs] set_sort[of "\<lambda>x. x" xs] by simp_all
  then show ?thesis unfolding s by auto
qed

lemma finalize_header_cases:
  "(2 \<le> length cands \<longrightarrow>
      (\<exists>c\<in>set cands. (\<forall>c'\<in>set cands. fst c \<le> fst c') \<and>
         finalize_header hmax i cands
         = (fst (snd c), if fst c > hmax then fst (snd c) + hmax else snd (snd c)))) \<and>
   (length cands < 2 \<longrightarrow> finalize_header hmax i cands = (int i, int i + 1))"
proof (cases "2 \<le> length cands")
  case True
  then have ne: "cands \<noteq> []" by auto
  from hd_sort_least[OF ne] have m: "hd (sort cands) \<in> set cands"
    and l: "\<forall>x\<in>set cands. hd (sort cands) \<le> x"
    by auto
  have "\<forall>c'\<in>set cands. fst (hd (sort cands)) \<le> fst c'"
  proof
    fix c' assume "c' \<in> set cands"
    with l have "hd (sort cands) \<le> c'" by blast
    then show "fst (hd (sort cands)) \<le> fst c'"
      by (cases "hd (sort cands)", cases c') (auto simp: less_eq_prod_def)
  qed
  moreover have "finalize_header hmax i cands
        = (fst (snd (hd (sort cands))),
           if fst (hd (sort cands)) > hmax then fst (snd (hd (sort cands))) + hmax
           else snd (snd (hd (sort cands))))"
    using True by (simp add: finalize_header_def split: prod.splits)
  ultimately show ?thesis using m True by auto
next
  case False
  then show ?thesis by (simp add: finalize_header_def)
qed

text \<open>Following the words of the claim: the first candidate of the largest size, its end
  clamped.\<close>

definition claimed_header :: "int \<Rightarrow> nat \<Rightarrow> (int \<times> int \<times> int) list \<Rightarrow> int \<times> int" where
  "claimed_header hmax i cands =
     (case cands of
        [] \<Rightarrow> (int i, int i + 1)
      | c # cs \<Rightarrow>
          (case fold (\<lambda>x best. if fst x > fst best then x else best) cs c of
             (sz, head_start, head_end) \<Rightarrow>
               (head_start, if sz > hmax then head_start + hmax else head_end)))"

section \<open>Parent scopes, transitively\<close>

text \<open>What one finished call \<open>add_parent_scopes(j)\<close> has done for one enclosing scope
  \<open>s\<close> of \<open>j\<close>: the header range of \<open>s\<close> is shown (unless gated off) and the closing
  line of \<open>s\<close> has been processed in turn.\<close>

definition scope_done :: "tree_context \<Rightarrow> int \<Rightarrow> bool" where
  "scope_done tc s \<longleftrightarrow>
     (\<exists>hr e. py_index (header tc) s = Inr hr \<and>
        (fst hr > 0 \<or> show_top_of_file_parent_scope tc \<longrightarrow>
           set (py_range (fst hr) (snd hr)) \<subseteq> show_lines tc) \<and>
        get_last_line_of_scope tc s = Inr e \<and> e \<in> done_parent_scopes tc)"

definition line_done :: "tree_context \<Rightarrow> int \<Rightarrow> bool" where
  "line_done tc j \<longleftrightarrow>
     (j < int (length (scopes tc)) \<longrightarrow>
        (\<exists>sc. py_index (scopes tc) j = Inr sc \<and> (\<forall>s\<in>sc. scope_done tc s)))"

lemma get_last_line_frame:
  "frame a = frame b \<Longrightarrow> get_last_line_of_scope a s = get_last_line_of_scope b s"
  using frame_fields(3)[of a b] by (simp add: get_last_line_of_scope_def)

lemma scope_done_extends:
  assumes "extends a b" and "scope_done a s"
  shows "scope_done b s"
proof -
  from assms(1) have f: "frame b = frame a" and sh: "show_lines a \<subseteq> show_lines b"
    and d: "done_parent_scopes a \<subseteq> done_parent_scopes b"
    by (simp_all add: extends_def)
  from assms(2) obtain hr e where
    h: "py_index (header a) s = Inr hr"
    and r: "fst hr > 0 \<or> show_top_of_file_parent_scope a \<longrightarrow>
            set (py_range (fst hr) (snd hr)) \<subseteq> show_lines a"
    and g: "get_last_line_of_scope a s = Inr e" and e: "e \<in> done_parent_scopes a"
    by (auto simp: scope_done_def)
  from h r g e sh d frame_fields(2,16)[OF f] get_last_line_frame[OF f, of s]
  show ?thesis
    unfolding scope_done_def by (intro exI[of _ hr] exI[of _ e]) auto
qed

lemma line_done_extends:
  assumes "extends a b" and "line_done a j"
  shows "line_done b j"
proof -
  from assms(1) have f: "frame b = frame a" by (simp add: extends_def)
  from assms(2) frame_fields(1)[OF f] scope_done_extends[OF assms(1)] show ?thesis
    unfolding line_done_def by fastforce
qed

lemma add_parent_scopes_closed:
  "add_parent_scopes tc i = Inr tc' \<Longrightarrow> last_line tc \<Longrightarrow>
     \<forall>sc\<in>set (scopes tc). finite sc \<Longrightarrow>
     i \<in> done_parent_scopes tc' \<and>
     (\<forall>j\<in>done_parent_scopes tc' - done_parent_scopes tc. line_done tc' j)"
  "add_parent_scopes_loop tc ls = Inr tc' \<Longrightarrow> last_line tc \<Longrightarrow>
     \<forall>sc\<in>set (scopes tc). finite sc \<Longrightarrow>
     (\<forall>s\<in>set ls. scope_done tc' s) \<and>
     (\<forall>j\<in>done_parent_scopes tc' - done_parent_scopes tc. line_done tc' j)"
proof (induction tc i and tc ls arbitrary: tc' and tc'
    rule: add_parent_scopes_add_parent_scopes_loop.induct)
  case (1 tc i)
  show ?case
  proof (cases "i \<in> done_parent_scopes tc")
    case True
    with "1.prems"(1) show ?thesis by (simp add: add_parent_scopes.simps)
  next
    case nd: False
    show ?thesis
    proof (cases "i \<ge> int (length (scopes tc))")
      case True
      with nd "1.prems"(1)
      have tc': "tc' = tc\<lparr>done_parent_scopes := insert i (done_parent_scopes tc)\<rparr>"
        by (simp add: add_parent_scopes.simps)
      with True show ?thesis by (auto simp: line_done_def)
    next
      case False
      let ?t1 = "tc\<lparr>done_parent_scopes := insert i (done_parent_scopes tc)\<rparr>"
      from nd False "1.prems"(1) obtain sc where
        s: "py_index (scopes tc) i = Inr sc"
        and l: "add_parent_scopes_loop ?t1 (sorted_list_of_set sc) = Inr tc'"
        by (auto simp: add_parent_scopes.simps split: sum.splits)
      from s have "sc \<in> set (scopes tc)"
        by (auto simp: py_index_def split: if_splits)
      with "1.prems"(3) have fin: "finite sc" by blast
      from "1.IH"[OF nd False s l] "1.prems"(2,3)
      have a: "\<forall>s\<in>set (sorted_list_of_set sc). scope_done tc' s"
        and b: "\<forall>j\<in>done_parent_scopes tc' - insert i (done_parent_scopes tc). line_done tc' j"
        by simp_all
      from add_parent_scopes_extends(2)[OF l]
      have f: "frame tc' = frame tc" and i: "i \<in> done_parent_scopes tc'"
        by (auto simp: extends_def)
      from a fin s frame_fields(1)[OF f] have "line_done tc' i"
        by (simp add: line_done_def)
      with b i show ?thesis by blast
    qed
  qed
next
  case (2 tc)
  then show ?case by simp
next
  case (3 tc line_num rest)
  from "3.prems"(1,2) obtain hr e t2 where
    h: "py_index (header tc) line_num = Inr hr"
    and g: "get_last_line_of_scope tc line_num = Inr e"
    and a: "add_parent_scopes (show_header tc (fst hr) (snd hr)) e = Inr t2"
    and r: "add_parent_scopes_loop t2 rest = Inr tc'"
    by (auto split: sum.splits)
  let ?t1 = "show_header tc (fst hr) (snd hr)"
  from "3.prems"(2,3) have p1: "last_line ?t1" "\<forall>sc\<in>set (scopes ?t1). finite sc"
    by simp_all
  from "3.IH"(1)[OF h "3.prems"(2) g a p1]
  have e2: "e \<in> done_parent_scopes t2"
    and n2: "\<forall>j\<in>done_parent_scopes t2 - done_parent_scopes tc. line_done t2 j"
    by simp_all
  have x12: "extends ?t1 t2" by (rule add_parent_scopes_extends(1)[OF a])
  then have f2: "frame t2 = frame tc" by (simp add: extends_def)
  from "3.prems"(2,3) frame_fields(12,1)[OF f2]
  have p2: "last_line t2" "\<forall>sc\<in>set (scopes t2). finite sc"
    by simp_all
  from "3.IH"(2)[OF h "3.prems"(2) g a r p2]
  have rs: "\<forall>s\<in>set rest. scope_done tc' s"
    and n3: "\<forall>j\<in>done_parent_scopes tc' - done_parent_scopes t2. line_done tc' j"
    by simp_all
  have x2: "extends t2 tc'" by (rule add_parent_scopes_extends(2)[OF r])
  have "scope_done t2 line_num"
  proof -
    have "set (py_range (fst hr) (snd hr)) \<subseteq> show_lines ?t1"
      if "fst hr > 0 \<or> show_top_of_file_parent_scope tc"
      using that by (auto simp: show_header_def)
    with x12 have "fst hr > 0 \<or> show_top_of_file_parent_scope t2 \<longrightarrow>
                   set (py_range (fst hr) (snd hr)) \<subseteq> show_lines t2"
      using frame_fields(16)[OF f2] by (auto simp: extends_def)
    with h g e2 frame_fields(2)[OF f2] get_last_line_frame[OF f2, of line_num]
    show ?thesis
      unfolding scope_done_def by (intro exI[of _ hr] exI[of _ e]) auto
  qed
  with x2 have here: "scope_done tc' line_num" by (rule scope_done_extends)
  have "line_done tc' j" if j: "j \<in> done_parent_scopes tc' - done_parent_scopes tc" for j
  proof (cases "j \<in> done_parent_scopes t2")
    case True
    with j n2 have "line_done t2 j" by blast
    with x2 show ?thesis by (rule line_done_extends)
  next
    case False
    with j n3 show ?thesis by blast
  qed
  with here rs show ?case by simp
qed

definition all_done :: "tree_context \<Rightarrow> bool" where
  "all_done tc \<longleftrightarrow> (\<forall>j\<in>done_parent_scopes tc. line_done tc j)"

lemma all_done_step:
  assumes "all_done a" and "extends a b"
    and "\<forall>j\<in>done_parent_scopes b - done_parent_scopes a. line_done b j"
  shows "all_done b"
  unfolding all_done_def
proof
  fix j assume j: "j \<in> done_parent_scopes b"
  show "line_done b j"
  proof (cases "j \<in> done_parent_scopes a")
    case True
    with assms(1) have "line_done a j" by (simp add: all_done_def)
    with assms(2) show ?thesis by (rule line_done_extends)
  next
    case False
    with j assms(3) show ?thesis by blast
  qed
qed

lemma all_done_same_done:
  assumes "all_done a" and "extends a b" and "done_parent_scopes b = done_parent_scopes a"
  shows "all_done b"
  using all_done_step[OF assms(1,2)] assms(3) by simp

definition closing :: "tree_context \<Rightarrow> bool" where
  "closing tc \<longleftrightarrow> last_line tc \<and> (\<forall>sc\<in>set (scopes tc). finite sc)"

lemma closing_extends: "extends a b \<Longrightarrow> closing a \<Longrightarrow> closing b"
  using frame_fields(12,1)[of b a] by (simp add: closing_def extends_def)

lemma add_parent_scopes_all_done:
  assumes "add_parent_scopes tc i = Inr tc'" and "closing tc" and "all_done tc"
  shows "all_done tc' \<and> i \<in> done_parent_scopes tc'"
  using add_parent_scopes_closed(1)[OF assms(1)] assms(2,3)
    all_done_step[OF assms(3) add_parent_scopes_extends(1)[OF assms(1)]]
  by (simp add: closing_def)

lemma parent_scopes_all_all_done:
  "parent_scopes_all tc ls = Inr tc' \<Longrightarrow> closing tc \<Longrightarrow> all_done tc \<Longrightarrow>
     all_done tc' \<and> set ls \<subseteq> done_parent_scopes tc'"
proof (induction ls arbitrary: tc)
  case Nil
  then show ?case by simp
next
  case (Cons i rest)
  from Cons.prems(1) obtain t1 where a: "add_parent_scopes tc i = Inr t1"
    and r: "parent_scopes_all t1 rest = Inr tc'"
    by (auto split: sum.splits)
  from add_parent_scopes_all_done[OF a Cons.prems(2,3)]
  have d1: "all_done t1" and i1: "i \<in> done_parent_scopes t1" by simp_all
  have c1: "closing t1"
    using add_parent_scopes_extends(1)[OF a] Cons.prems(2) by (rule closing_extends)
  from Cons.IH[OF r c1 d1] i1 parent_scopes_all_extends[OF r] show ?case
    by (auto simp: extends_def)
qed

lemma add_child_context_loop_all_done:
  "add_child_context_loop tc cs m chs = Inr tc' \<Longrightarrow> closing tc \<Longrightarrow> all_done tc \<Longrightarrow>
     all_done tc'"
proof (induction chs arbitrary: tc)
  case Nil
  then show ?case by simp
next
  case (Cons child rest)
  show ?case
  proof (cases "of_nat (card (show_lines tc)) > of_nat cs + m")
    case True
    with Cons.prems show ?thesis by simp
  next
    case False
    with Cons.prems(1) obtain t1 where
      a: "add_parent_scopes tc (int (start_line child)) = Inr t1"
      and r: "add_child_context_loop t1 cs m rest = Inr tc'"
      by (auto split: sum.splits)
    from add_parent_scopes_all_done[OF a Cons.prems(2,3)] have d1: "all_done t1" by simp
    have c1: "closing t1"
      using add_parent_scopes_extends(1)[OF a] Cons.prems(2) by (rule closing_extends)
    from Cons.IH[OF r c1 d1] show ?thesis .
  qed
qed

lemma add_child_context_all_done:
  assumes "add_child_context tc i = Inr tc'" and "closing tc" and "all_done tc"
  shows "all_done tc'"
proof -
  have x: "extends tc tc'" by (rule add_child_context_extends[OF assms(1)])
  from assms(1) obtain ns where ns: "py_index (nodes tc) i = Inr ns"
    by (cases "py_index (nodes tc) i") (simp_all add: add_child_context_def)
  show ?thesis
  proof (cases "ns = []")
    case True
    with assms(1) ns have "tc' = tc" by (simp add: add_child_context_def)
    with assms(3) show ?thesis by simp
  next
    case False
    with assms(1) ns obtain l where l: "get_last_line_of_scope tc i = Inr l"
      by (cases "get_last_line_of_scope tc i") (simp_all add: add_child_context_def)
    show ?thesis
    proof (cases "l - i < 5")
      case True
      with assms(1) ns False l
      have "tc' = tc\<lparr>show_lines := show_lines tc \<union> set (py_range i (l + 1))\<rparr>"
        by (simp add: add_child_context_def)
      then have "done_parent_scopes tc' = done_parent_scopes tc" by simp
      with assms(3) x show ?thesis by (rule all_done_same_done)
    next
      case big: False
      with assms(1) ns False l
      have "add_child_context_loop tc (card (show_lines tc))
              (max (min (of_int (l - i) * (1 / 10)) 25) 5)
              (sort_children (concat (map find_all_children ns))) = Inr tc'"
        by (simp add: add_child_context_def)
      from add_child_context_loop_all_done[OF this assms(2,3)] show ?thesis .
    qed
  qed
qed

lemma child_context_all_all_done:
  "child_context_all tc ls = Inr tc' \<Longrightarrow> closing tc \<Longrightarrow> all_done tc \<Longrightarrow> all_done tc'"
proof (induction ls arbitrary: tc)
  case Nil
  then show ?case by simp
next
  case (Cons i rest)
  from Cons.prems(1) obtain t1 where a: "add_child_context tc i = Inr t1"
    and r: "child_context_all t1 rest = Inr tc'"
    by (auto split: sum.splits)
  have c1: "closing t1"
    using add_child_context_extends[OF a] Cons.prems(2) by (rule closing_extends)
  from Cons.IH[OF r c1 add_child_context_all_done[OF a Cons.prems(2,3)]] show ?case .
qed

section \<open>Small files to run the code on\<close>

text \<open>Evaluation of \<open>add_context\<close> and \<open>close_small_gaps\<close> on a given context: they write
  \<open>show_lines\<close> and \<open>done_parent_scopes\<close> only, so the two sets fix the result.\<close>

lemma add_context_eval:
  assumes "map_sum (\<lambda>_. ()) (\<lambda>t. (show_lines t, done_parent_scopes t))
             (add_context visit tc)
           = Inr (S, D)"
    and "lines_of_interest tc \<noteq> {}"
  shows "add_context visit tc = Inr (tc\<lparr>show_lines := S, done_parent_scopes := D\<rparr>)"
proof -
  from assms(1) obtain tc' where r: "add_context visit tc = Inr tc'"
    and s: "show_lines tc' = S" and d: "done_parent_scopes tc' = D"
    by (cases "add_context visit tc") auto
  from add_context_extends[OF r assms(2)] have "frame tc' = frame tc"
    by (simp add: extends_def)
  then have "tc' = tc\<lparr>show_lines := show_lines tc', done_parent_scopes := done_parent_scopes tc'\<rparr>"
    by (cases tc, cases tc') (simp add: frame_def)
  with r s d show ?thesis by simp
qed

lemma close_small_gaps_eval:
  assumes "map_sum (\<lambda>_. ()) show_lines (close_small_gaps tc) = Inr S"
  shows "close_small_gaps tc = Inr (tc\<lparr>show_lines := S\<rparr>)"
  using assms by (auto simp: close_small_gaps_def split: sum.splits)

text \<open>Nine lines \<open>x\<close> ended by a newline: the root spans rows 0 to 9, a block rows 1 to 5,
  and a two-line construct starts together with the block on row 1. Default
  configuration, line 1 of interest.\<close>

definition ex_lines :: "pystr list" where
  "ex_lines = replicate 9 [120]"

definition ex_tree :: node where
  "ex_tree = Node 0 9 [Node 1 5 [Node 1 2 []]]"

definition ex_tables :: index_tables where
  "ex_tables =
     \<lparr>idx_nodes = [[Node 0 9 [Node 1 5 [Node 1 2 []]]], [Node 1 5 [Node 1 2 []], Node 1 2 []],
                   [], [], [], [], [], [], [], []],
      idx_header = [[(9, 0, 9)], [(4, 1, 5), (1, 1, 2)], [], [], [], [], [], [], [], []],
      idx_scopes = [{0}, {0, 1}, {0, 1}, {0, 1}, {0, 1}, {0, 1}, {0}, {0}, {0}, {0}]\<rparr>"

definition ex_fresh :: tree_context where
  "ex_fresh = build_context default_config ex_lines ex_tables"

definition ex_query :: tree_context where
  "ex_query = add_lines_of_interest ex_fresh {1}"

definition ex_result :: tree_context where
  "ex_result =
     ex_query\<lparr>show_lines := {0, 1, 2, 3, 4, 5, 8}, done_parent_scopes := {1, 5, 8, 9}\<rparr>"

lemma ex_walk: "walk_tree ex_tree (empty_tables (length ex_lines + 1)) = Inr ex_tables"
  by code_simp

lemma ex_init: "TreeContext_init True ex_lines ex_tree default_config = Inr ex_fresh"
  unfolding TreeContext_init_def ex_walk by (simp add: ex_fresh_def)

lemma ex_add_context: "add_context [1] ex_query = Inr ex_result"
  unfolding ex_result_def
proof (rule add_context_eval)
  show "map_sum (\<lambda>_. ()) (\<lambda>t. (show_lines t, done_parent_scopes t)) (add_context [1] ex_query)
        = Inr ({0, 1, 2, 3, 4, 5, 8}, {1, 5, 8, 9})"
    by code_simp
  show "lines_of_interest ex_query \<noteq> {}"
    by code_simp
qed

text \<open>Eight lines ended by a newline, the fourth one empty, each of the others a one-line
  statement under the root. Default configuration, line 6 of interest.\<close>

definition gap_lines :: "pystr list" where
  "gap_lines = [[120], [120], [120], [], [120], [120], [120], [120]]"

definition gap_tree :: node where
  "gap_tree =
     Node 0 8 [Node 0 0 [], Node 1 1 [], Node 2 2 [], Node 4 4 [], Node 5 5 [], Node 6 6 [],
               Node 7 7 []]"

definition gap_tables :: index_tables where
  "gap_tables =
     \<lparr>idx_nodes = [[gap_tree, Node 0 0 []], [Node 1 1 []], [Node 2 2 []], [], [Node 4 4 []],
                   [Node 5 5 []], [Node 6 6 []], [Node 7 7 []], []],
      idx_header = [[(8, 0, 8)], [], [], [], [], [], [], [], []],
      idx_scopes = [{0}, {0, 1}, {0, 2}, {0}, {0, 4}, {0, 5}, {0, 6}, {0, 7}, {0}]\<rparr>"

definition gap_query :: tree_context where
  "gap_query = add_lines_of_interest (build_context default_config gap_lines gap_tables) {6}"

definition gap_result :: tree_context where
  "gap_result =
     gap_query\<lparr>show_lines := {0, 1, 2, 3, 5, 6, 7}, done_parent_scopes := {6, 7, 8}\<rparr>"

lemma gap_walk: "walk_tree gap_tree (empty_tables (length gap_lines + 1)) = Inr gap_tables"
  by code_simp

lemma gap_init:
  "TreeContext_init True gap_lines gap_tree default_config
   = Inr (build_context default_config gap_lines gap_tables)"
  unfolding TreeContext_init_def gap_walk by simp

lemma gap_add_context: "add_context [6] gap_query = Inr gap_result"
  unfolding gap_result_def
proof (rule add_context_eval)
  show "map_sum (\<lambda>_. ()) (\<lambda>t. (show_lines t, done_parent_scopes t)) (add_context [6] gap_query)
        = Inr ({0, 1, 2, 3, 5, 6, 7}, {6, 7, 8})"
    by code_simp
  show "lines_of_interest gap_query \<noteq> {}"
    by code_simp
qed

lemma gap_close_small_gaps:
  "close_small_gaps (gap_query\<lparr>show_lines := {0, 1, 2, 5, 7}\<rparr>)
   = Inr (gap_query\<lparr>show_lines := {0, 1, 2, 3, 5, 6, 7}\<rparr>)"
proof -
  have "close_small_gaps (gap_query\<lparr>show_lines := {0, 1, 2, 5, 7}\<rparr>)
        = Inr (gap_query\<lparr>show_lines := {0, 1, 2, 5, 7}, show_lines := {0, 1, 2, 3, 5, 6, 7}\<rparr>)"
    by (rule close_small_gaps_eval) code_simp
  then show ?thesis by simp
qed

text \<open>Twelve lines \<open>x\<close> ended by a newline: a five-line construct on rows 0 to 4 starts
  on the first line together with the root, a second construct spans rows 6 to 11.
  Default configuration, line 0 of interest.\<close>

definition first_lines :: "pystr list" where
  "first_lines = replicate 12 [120]"

definition first_tree :: node where
  "first_tree = Node 0 12 [Node 0 4 [], Node 6 11 []]"

definition first_tables :: index_tables where
  "first_tables =
     \<lparr>idx_nodes = [[first_tree, Node 0 4 []], [], [], [], [], [], [Node 6 11 []],
                   [], [], [], [], [], []],
      idx_header = [[(12, 0, 12), (4, 0, 4)], [], [], [], [], [], [(5, 6, 11)],
                    [], [], [], [], [], []],
      idx_scopes = [{0}, {0}, {0}, {0}, {0}, {0}, {0, 6}, {0, 6}, {0, 6}, {0, 6}, {0, 6},
                    {0, 6}, {0}]\<rparr>"

definition first_query :: tree_context where
  "first_query =
     add_lines_of_interest (build_context default_config first_lines first_tables) {0}"

definition first_result :: tree_context where
  "first_result =
     first_query\<lparr>show_lines := {0, 1, 2, 3, 6, 11}, done_parent_scopes := {0, 6, 11, 12}\<rparr>"

lemma first_walk:
  "walk_tree first_tree (empty_tables (length first_lines + 1)) = Inr first_tables"
  by code_simp

lemma first_init:
  "TreeContext_init True first_lines first_tree default_config
   = Inr (build_context default_config first_lines first_tables)"
  unfolding TreeContext_init_def first_walk by simp

lemma first_add_context: "add_context [0] first_query = Inr first_result"
  unfolding first_result_def
proof (rule add_context_eval)
  show "map_sum (\<lambda>_. ()) (\<lambda>t. (show_lines t, done_parent_scopes t)) (add_context [0] first_query)
        = Inr ({0, 1, 2, 3, 6, 11}, {0, 6, 11, 12})"
    by code_simp
  show "lines_of_interest first_query \<noteq> {}"
    by code_simp
qed

text \<open>Twenty lines \<open>x\<close> ended by a newline: a block on rows 1 to 18 holds one-line
  statements on rows 3, 4, 5, 6 and 15 and a five-line construct on rows 8 to 12 with
  one-line statements on rows 10 and 11. Default configuration, lines 1 and 8 of
  interest. Here the order of the child-context loop shows: visiting 8 before 1 (as
  CPython does for the set \<open>{1, 8}\<close>) reveals rows 10 and 11 first, so that the budget of
  the large block at line 1 lasts up to row 15; visiting 1 before 8 spends it earlier.\<close>

definition pair_lines :: "pystr list" where
  "pair_lines = replicate 20 [120]"

definition pair_block :: node where
  "pair_block =
     Node 1 18 [Node 3 3 [], Node 4 4 [], Node 5 5 [], Node 6 6 [],
                Node 8 12 [Node 10 10 [], Node 11 11 []], Node 15 15 []]"

definition pair_tree :: node where
  "pair_tree = Node 0 20 [pair_block]"

definition pair_tables :: index_tables where
  "pair_tables =
     \<lparr>idx_nodes = [[pair_tree], [pair_block], [], [Node 3 3 []], [Node 4 4 []], [Node 5 5 []],
                   [Node 6 6 []], [], [Node 8 12 [Node 10 10 [], Node 11 11 []]], [],
                   [Node 10 10 []], [Node 11 11 []], [], [], [], [Node 15 15 []],
                   [], [], [], [], []],
      idx_header = [[(20, 0, 20)], [(17, 1, 18)], [], [], [], [], [], [], [(4, 8, 12)], [],
                    [], [], [], [], [], [], [], [], [], [], []],
      idx_scopes = [{0}, {0, 1}, {0, 1}, {0, 1, 3}, {0, 1, 4}, {0, 1, 5}, {0, 1, 6}, {0, 1},
                    {0, 1, 8}, {0, 1, 8}, {0, 1, 8, 10}, {0, 1, 8, 11}, {0, 1, 8}, {0, 1},
                    {0, 1}, {0, 1, 15}, {0, 1}, {0, 1}, {0, 1}, {0}, {0}]\<rparr>"

definition pair_query :: tree_context where
  "pair_query =
     add_lines_of_interest (build_context default_config pair_lines pair_tables) {1, 8}"

definition pair_result :: tree_context where
  "pair_result =
     pair_query\<lparr>show_lines := {0, 1, 2, 3, 4, 5, 6, 7, 8, 9, 10, 11, 12, 15, 19},
                done_parent_scopes := {1, 3, 4, 5, 6, 8, 10, 11, 12, 15, 18, 19, 20}\<rparr>"

lemma pair_walk: "walk_tree pair_tree (empty_tables (length pair_lines + 1)) = Inr pair_tables"
  by code_simp

lemma pair_init:
  "TreeContext_init True pair_lines pair_tree default_config
   = Inr (build_context default_config pair_lines pair_tables)"
  unfolding TreeContext_init_def pair_walk by simp

lemma pair_add_context: "add_context [8, 1] pair_query = Inr pair_result"
  unfolding pair_result_def
proof (rule add_context_eval)
  show "map_sum (\<lambda>_. ()) (\<lambda>t. (show_lines t, done_parent_scopes t))
          (add_context [8, 1] pair_query)
        = Inr ({0, 1, 2, 3, 4, 5, 6, 7, 8, 9, 10, 11, 12, 15, 19},
               {1, 3, 4, 5, 6, 8, 10, 11, 12, 15, 18, 19, 20})"
    by code_simp
  show "lines_of_interest pair_query \<noteq> {}"
    by code_simp
qed

lemma pair_add_context_other_order:
  "add_context [1, 8] pair_query
   = Inr (pair_query\<lparr>show_lines := {0, 1, 2, 3, 4, 5, 6, 7, 8, 9, 10, 11, 12, 19},
                     done_parent_scopes := {1, 3, 4, 5, 6, 8, 10, 11, 12, 18, 19, 20}\<rparr>)"
proof (rule add_context_eval)
  show "map_sum (\<lambda>_. ()) (\<lambda>t. (show_lines t, done_parent_scopes t))
          (add_context [1, 8] pair_query)
        = Inr ({0, 1, 2, 3, 4, 5, 6, 7, 8, 9, 10, 11, 12, 19},
               {1, 3, 4, 5, 6, 8, 10, 11, 12, 18, 19, 20})"
    by code_simp
  show "lines_of_interest pair_query \<noteq> {}"
    by code_simp
qed

lemma pair_facts:
  "lines_of_interest pair_query = {1, 8}" "parent_context pair_query"
  "child_context pair_query" "last_line pair_query"
  "nodes pair_query ! nat 8 = [Node 8 12 [Node 10 10 [], Node 11 11 []]]"
  "8 < int (length (nodes pair_query))"
  "scopes pair_query = idx_scopes pair_tables"
  by (simp_all add: pair_query_def add_lines_of_interest_def build_context_def
      pair_tables_def default_config_def)

lemma add_context_error:
  assumes "map_sum id (\<lambda>_. ()) (add_context visit tc) = Inl err"
  shows "add_context visit tc = Inl err"
  using assms by (cases "add_context visit tc") auto

text \<open>Eight lines \<open>x\<close> ended by a newline: a block on rows 1 to 5 and, starting on the
  row that closes it, a second block on rows 5 to 7. Default configuration but for
  \<open>last_line\<close>, which is off; line 2 of interest.\<close>

definition else_lines :: "pystr list" where
  "else_lines = replicate 8 [120]"

definition else_tree :: node where
  "else_tree = Node 0 8 [Node 1 5 [], Node 5 7 []]"

definition else_tables :: index_tables where
  "else_tables =
     \<lparr>idx_nodes = [[else_tree], [Node 1 5 []], [], [], [], [Node 5 7 []], [], [], []],
      idx_header = [[(8, 0, 8)], [(4, 1, 5)], [], [], [], [(2, 5, 7)], [], [], []],
      idx_scopes = [{0}, {0, 1}, {0, 1}, {0, 1}, {0, 1}, {0, 1, 5}, {0, 5}, {0, 5}, {0}]\<rparr>"

definition else_query :: tree_context where
  "else_query =
     add_lines_of_interest
       (build_context (default_config\<lparr>last_line := False\<rparr>) else_lines else_tables) {2}"

definition else_result :: tree_context where
  "else_result = else_query\<lparr>show_lines := {0, 1, 2, 3}, done_parent_scopes := {2}\<rparr>"

lemma else_walk: "walk_tree else_tree (empty_tables (length else_lines + 1)) = Inr else_tables"
  by code_simp

lemma else_init:
  "TreeContext_init True else_lines else_tree (default_config\<lparr>last_line := False\<rparr>)
   = Inr (build_context (default_config\<lparr>last_line := False\<rparr>) else_lines else_tables)"
  unfolding TreeContext_init_def else_walk by simp

lemma else_add_context: "add_context [2] else_query = Inr else_result"
  unfolding else_result_def
proof (rule add_context_eval)
  show "map_sum (\<lambda>_. ()) (\<lambda>t. (show_lines t, done_parent_scopes t)) (add_context [2] else_query)
        = Inr ({0, 1, 2, 3}, {2})"
    by code_simp
  show "lines_of_interest else_query \<noteq> {}"
    by code_simp
qed

text \<open>Six lines \<open>x\<close>, the last one not ended by a newline, so that the root spans rows 0
  to 5 and nothing reaches the virtual row 6. No padding, no margin, no last line; the
  line of interest is 6, one past the last real line.\<close>

definition edge_lines :: "pystr list" where
  "edge_lines = replicate 6 [120]"

definition edge_tree :: node where
  "edge_tree = Node 0 5 []"

definition edge_tables :: index_tables where
  "edge_tables =
     \<lparr>idx_nodes = [[Node 0 5 []], [], [], [], [], [], []],
      idx_header = [[(5, 0, 5)], [], [], [], [], [], []],
      idx_scopes = [{0}, {0}, {0}, {0}, {0}, {0}, {}]\<rparr>"

definition edge_config :: config where
  "edge_config = default_config\<lparr>last_line := False, margin := 0, loi_pad := 0\<rparr>"

definition edge_query :: tree_context where
  "edge_query = add_lines_of_interest (build_context edge_config edge_lines edge_tables) {6}"

definition edge_result :: tree_context where
  "edge_result = edge_query\<lparr>show_lines := {6}, done_parent_scopes := {6}\<rparr>"

lemma edge_walk: "walk_tree edge_tree (empty_tables (length edge_lines + 1)) = Inr edge_tables"
  by code_simp

lemma edge_init:
  "TreeContext_init True edge_lines edge_tree edge_config
   = Inr (build_context edge_config edge_lines edge_tables)"
  unfolding TreeContext_init_def edge_walk by simp

lemma edge_add_context: "add_context [6] edge_query = Inr edge_result"
  unfolding edge_result_def
proof (rule add_context_eval)
  show "map_sum (\<lambda>_. ()) (\<lambda>t. (show_lines t, done_parent_scopes t)) (add_context [6] edge_query)
        = Inr ({6}, {6})"
    by code_simp
  show "lines_of_interest edge_query \<noteq> {}"
    by code_simp
qed

section \<open>The claims\<close>

text \<open>
  C8. With an empty set of lines of interest \<open>add_context\<close> returns at once and changes
  nothing: no margin, last line or padding is added, so a show set that was empty (as it
  is from construction on, until some line of interest exists) stays empty, and \<open>format\<close>
  then returns the empty string.
\<close>

theorem empty_interest_noop:
  assumes "lines_of_interest tc = {}" and "show_lines tc = {}"
  shows "add_context visit tc = Inr tc \<and> format tc = []"
  using assms by (simp add: add_context_def format_def)

theorem empty_interest_noop_witness:
  "lines_of_interest ex_fresh = {} \<and> show_lines ex_fresh = {} \<and>
   add_context [] ex_fresh = Inr ex_fresh \<and> format ex_fresh = []"
proof -
  have l: "lines_of_interest ex_fresh = {}" and s: "show_lines ex_fresh = {}"
    by (simp_all add: ex_fresh_def build_context_def)
  from empty_interest_noop[OF l s, of "[]"] l s show ?thesis by simp
qed

text \<open>
  C3. Whenever \<open>add_context\<close> returns, for any interest set, any configuration and
  any order in which the child-context loop visits the lines of interest, every line of
  interest is in the show set (and the interest set itself is untouched).
\<close>

theorem expand_context_monotonic:
  assumes "add_context visit tc = Inr tc'"
  shows "lines_of_interest tc' = lines_of_interest tc \<and> lines_of_interest tc \<subseteq> show_lines tc'"
proof (cases "lines_of_interest tc = {}")
  case True
  with assms show ?thesis by (simp add: add_context_def)
next
  case False
  from add_context_extends[OF assms False]
  have f: "frame tc' = frame tc" and s: "show_lines (reset_context tc) \<subseteq> show_lines tc'"
    by (simp_all add: extends_def)
  from frame_fields(7)[OF f] s show ?thesis
    by (simp add: reset_context_def)
qed

theorem expand_context_monotonic_witness:
  "add_context [8, 1] pair_query = Inr pair_result \<and> lines_of_interest pair_query = {1, 8} \<and>
   lines_of_interest pair_result = {1, 8} \<and> {1, 8} \<subseteq> show_lines pair_result"
  using expand_context_monotonic[OF pair_add_context] pair_add_context pair_facts(1)
  by simp



text \<open>
  C5, as the claim states it, fails: the second loop of \<open>close_small_gaps\<close> runs after
  the one that fills one-line gaps and adds blank successor lines, which can open a new
  one-line gap. In the eight-line file, with the default configuration and line 6 of
  interest, lines 3 and 5 end up neighbours in the sorted show set, line 4 missing.
\<close>

theorem one_line_gap_counterexample:
  "add_context [6] gap_query = Inr gap_result \<and>
   sorted_list_of_set (show_lines gap_result) = [0, 1, 2, 3, 5, 6, 7] \<and>
   3 \<in> show_lines gap_result \<and> 5 \<in> show_lines gap_result \<and> 4 \<notin> show_lines gap_result"
proof -
  have "sorted_list_of_set (show_lines gap_result) = [0, 1, 2, 3, 5, 6, 7]"
    by code_simp
  moreover have "3 \<in> show_lines gap_result \<and> 5 \<in> show_lines gap_result
                 \<and> 4 \<notin> show_lines gap_result"
    by (simp add: gap_result_def)
  ultimately show ?thesis using gap_add_context by simp
qed

text \<open>
  C5, amended. When \<open>close_small_gaps\<close> returns, every one-line gap the show set had when
  it started is filled; and where two lines \<open>a\<close> and \<open>a + 2\<close> of the final show set still
  have line \<open>a + 1\<close> missing between them, \<open>a\<close> is a blank line that the pass itself added
  as the successor of the shown non-blank line \<open>a - 1\<close>.
\<close>

theorem one_line_gaps_after_closing:
  assumes "close_small_gaps tc = Inr tc'" and "finite (show_lines tc)"
  shows "(\<forall>a. a \<in> show_lines tc \<and> a + 2 \<in> show_lines tc \<longrightarrow> a + 1 \<in> show_lines tc') \<and>
         (\<forall>a. a \<in> show_lines tc' \<and> a + 2 \<in> show_lines tc' \<and> a + 1 \<notin> show_lines tc' \<longrightarrow>
              a \<notin> show_lines tc \<and> 0 < a \<and> a < int (length (lines tc)) \<and>
              \<not> strip_true (lines tc ! nat a) \<and>
              a - 1 \<in> show_lines tc' \<and> strip_true (lines tc ! nat (a - 1)))"
proof -
  let ?S = "show_lines tc"
  let ?S1 = "?S \<union> {x. x - 1 \<in> ?S \<and> x + 1 \<in> ?S}"
  from assms have b: "blank_lines_loop tc (enumerate 0 (lines tc)) ?S1 = Inr (show_lines tc')"
    by (auto simp: close_small_gaps_def close_gaps_loop_show split: sum.splits)
  have sub: "?S1 \<subseteq> show_lines tc'"
    by (rule blank_lines_loop_mono[OF b])
  have new: "0 < x \<and> x < int (length (lines tc)) \<and> x - 1 \<in> ?S1 \<and>
             strip_true (lines tc ! nat (x - 1)) \<and> \<not> strip_true (lines tc ! nat x)"
    if "x \<in> show_lines tc'" "x \<notin> ?S1" for x
    by (rule blank_lines_loop_new[OF b enumerate_lines that])
  have filled: "a + 1 \<in> show_lines tc'" if "a \<in> ?S" "a + 2 \<in> ?S" for a
  proof -
    have "a + 1 \<in> ?S1" using that by (simp add: add.commute)
    with sub show ?thesis by blast
  qed
  have left: "a \<notin> ?S \<and> 0 < a \<and> a < int (length (lines tc)) \<and>
              \<not> strip_true (lines tc ! nat a) \<and>
              a - 1 \<in> show_lines tc' \<and> strip_true (lines tc ! nat (a - 1))"
    if a: "a \<in> show_lines tc'" "a + 2 \<in> show_lines tc'" "a + 1 \<notin> show_lines tc'" for a
  proof -
    have m: "a + 1 \<notin> ?S1" using a(3) sub by blast
    have b1: "a + 2 \<in> ?S1"
    proof (rule ccontr)
      assume "a + 2 \<notin> ?S1"
      from new[OF a(2) this] have "a + 2 - 1 \<in> ?S1" by blast
      with m show False by (simp add: algebra_simps)
    qed
    have a1: "a \<notin> ?S1"
    proof
      assume "a \<in> ?S1"
      with b1 m show False by (auto simp: algebra_simps)
    qed
    from new[OF a(1) a1] sub a1 show ?thesis by blast
  qed
  from filled left show ?thesis by blast
qed


theorem one_line_gaps_after_closing_witness:
  "close_small_gaps (gap_query\<lparr>show_lines := {0, 1, 2, 5, 7}\<rparr>)
     = Inr (gap_query\<lparr>show_lines := {0, 1, 2, 3, 5, 6, 7}\<rparr>) \<and>
   finite {0, 1, 2, 5, 7 :: int} \<and>
   (5::int) \<in> {0, 1, 2, 5, 7} \<and> (5::int) + 2 \<in> {0, 1, 2, 5, 7} \<and>
   (5::int) + 1 \<in> {0, 1, 2, 3, 5, 6, 7} \<and>
   (3::int) \<in> {0, 1, 2, 3, 5, 6, 7} \<and> (3::int) + 2 \<in> {0, 1, 2, 3, 5, 6, 7} \<and>
   (3::int) + 1 \<notin> {0, 1, 2, 3, 5, 6, 7} \<and>
   (3::int) \<notin> {0, 1, 2, 5, 7} \<and> \<not> strip_true (lines gap_query ! nat 3) \<and>
   strip_true (lines gap_query ! nat (3 - 1))"
proof -
  let ?before = "gap_query\<lparr>show_lines := {0, 1, 2, 5, 7}\<rparr>"
  let ?after = "gap_query\<lparr>show_lines := {0, 1, 2, 3, 5, 6, 7}\<rparr>"
  have f: "finite (show_lines ?before)"
    by simp
  have l: "lines ?before = lines gap_query"
    by simp
  from one_line_gaps_after_closing[OF gap_close_small_gaps f]
  have "3 \<in> show_lines ?after \<and> 3 + 2 \<in> show_lines ?after \<and> 3 + 1 \<notin> show_lines ?after \<longrightarrow>
        \<not> strip_true (lines gap_query ! nat 3) \<and> strip_true (lines gap_query ! nat (3 - 1))"
    unfolding l by blast
  then have "\<not> strip_true (lines gap_query ! nat 3) \<and> strip_true (lines gap_query ! nat (3 - 1))"
    by simp
  with gap_close_small_gaps show ?thesis by simp
qed

text \<open>
  C4, as the claim states it, fails: \<open>add_child_context\<close> measures the scope of line \<open>i\<close>
  by the largest end line over all nodes that start there, so a small construct that
  starts on the same line as a large one is not revealed. In the twelve-line file, with
  the default configuration, line 0 of interest starts a construct that ends on row 4,
  and line 4 is not shown.
\<close>

theorem small_scope_counterexample:
  "add_context [0] first_query = Inr first_result \<and>
   0 \<in> lines_of_interest first_query \<and> child_context first_query \<and>
   Node 0 4 [] \<in> set (nodes first_query ! 0) \<and> int (end_line (Node 0 4 [])) - 0 < 5 \<and>
   4 \<notin> show_lines first_result"
proof -
  have "0 \<in> lines_of_interest first_query \<and> child_context first_query \<and>
        Node 0 4 [] \<in> set (nodes first_query ! 0)"
    by (simp add: first_query_def add_lines_of_interest_def build_context_def
        first_tables_def default_config_def)
  moreover have "4 \<notin> show_lines first_result"
    by (simp add: first_result_def)
  ultimately show ?thesis using first_add_context by simp
qed

text \<open>
  C4, amended. With child context enabled, if a line of interest \<open>i\<close> starts at least one
  construct and every construct that starts on \<open>i\<close> satisfies \<open>end_line - i < 5\<close>, then
  whenever \<open>add_context\<close> returns every line of \<open>[i, end_line]\<close> of each of them is shown,
  in whatever order \<open>visit\<close> the lines of interest are visited.
\<close>

theorem small_scope_shown_in_full:
  assumes "add_context visit tc = Inr tc'" and "child_context tc"
    and "set visit = lines_of_interest tc" and "i \<in> lines_of_interest tc"
    and "0 \<le> i" and "i < int (length (nodes tc))" and "nodes tc ! nat i \<noteq> []"
    and "\<forall>n\<in>set (nodes tc ! nat i). int (end_line n) - i < 5"
  shows "\<forall>n\<in>set (nodes tc ! nat i). \<forall>l. i \<le> l \<and> l \<le> int (end_line n) \<longrightarrow> l \<in> show_lines tc'"
proof -
  from assms(4) have ne: "lines_of_interest tc \<noteq> {}" by auto
  with assms(1) obtain tc1 tc2 tc3 where
    1: "step_last_line (step_pad (reset_context tc)) = Inr tc1"
    and 2: "step_parents tc1 = Inr tc2"
    and 3: "step_children visit tc2 = Inr tc3"
    and 4: "close_small_gaps (step_margin tc3) = Inr tc'"
    by (auto simp: add_context_def split: sum.splits)
  have "extends (reset_context tc) tc1"
    using step_pad_extends step_last_line_extends[OF 1] by (rule extends_trans)
  also have "extends tc1 tc2" by (rule step_parents_extends[OF 2])
  finally have e2: "extends (reset_context tc) tc2" .
  then have f2: "frame tc2 = frame tc" by (simp add: extends_def)
  have e3: "extends tc3 tc'"
    using step_margin_extends close_small_gaps_extends[OF 4] by (rule extends_trans)
  from 3 assms(2) frame_fields(11)[OF f2]
  have "child_context_all tc2 visit = Inr tc3"
    by (simp add: step_children_def)
  moreover have "i \<in> set visit"
    using assms(3,4) by simp
  ultimately obtain ta tb where
    a: "extends tc2 ta" and b: "add_child_context ta i = Inr tb" and c: "extends tb tc3"
    using child_context_all_visits by blast
  from a f2 have "frame ta = frame tc" by (simp add: extends_def)
  then have n: "nodes ta = nodes tc" by (rule frame_fields)
  from add_child_context_small[OF b] assms(5-8) n
  have "\<forall>n\<in>set (nodes tc ! nat i). {i..int (end_line n)} \<subseteq> show_lines tb"
    by simp
  moreover from c e3 have "show_lines tb \<subseteq> show_lines tc'"
    by (auto simp: extends_def)
  ultimately show ?thesis by fastforce
qed

theorem small_scope_shown_in_full_witness:
  "add_context [8, 1] pair_query = Inr pair_result \<and> child_context pair_query \<and>
   set [8, 1] = lines_of_interest pair_query \<and> 8 \<in> lines_of_interest pair_query \<and>
   (0::int) \<le> 8 \<and> 8 < int (length (nodes pair_query)) \<and>
   nodes pair_query ! nat 8 = [Node 8 12 [Node 10 10 [], Node 11 11 []]] \<and>
   int (end_line (Node 8 12 [Node 10 10 [], Node 11 11 []])) - 8 < 5 \<and>
   {8, 9, 10, 11, 12} \<subseteq> show_lines pair_result"
proof -
  have v: "set [8, 1] = lines_of_interest pair_query" and i: "8 \<in> lines_of_interest pair_query"
    by (auto simp: pair_facts(1))
  have n: "nodes pair_query ! nat 8 \<noteq> []"
    and small: "\<forall>n\<in>set (nodes pair_query ! nat 8). int (end_line n) - 8 < 5"
    using pair_facts(5) by simp_all
  from small_scope_shown_in_full[OF pair_add_context pair_facts(3) v i _ pair_facts(6) n small]
  have "\<forall>l. 8 \<le> l \<and> l \<le> 12 \<longrightarrow> l \<in> show_lines pair_result"
    using pair_facts(5) by simp
  then have "{8, 9, 10, 11, 12} \<subseteq> show_lines pair_result"
    by auto
  with pair_add_context pair_facts v i show ?thesis by simp
qed

text \<open>
  C10, as the claim states it, fails in one corner: \<open>format\<close> first asks whether the show
  set is empty, and a show set whose members all lie outside the real lines is not. In
  the six-line file, with line 6 of interest and padding, margin and last line off, the
  show set is \<open>{6}\<close>: it has no member on a real line, as the empty show set has none,
  yet \<open>format\<close> returns the placeholder line where the empty show set gives the empty
  string.
\<close>

theorem format_out_of_range_counterexample:
  "add_context [6] edge_query = Inr edge_result \<and> show_lines edge_result = {6} \<and>
   show_lines edge_result \<inter> {0..<int (length (lines edge_result))} = {} \<and>
   format edge_result = [8942, 10] \<and>
   format (edge_result\<lparr>show_lines := {}\<rparr>) = []"
proof -
  have "show_lines edge_result \<inter> {0..<int (length (lines edge_result))} = {}"
    by code_simp
  moreover have "format edge_result = [8942, 10]"
    by code_simp
  moreover have "format (edge_result\<lparr>show_lines := {}\<rparr>) = []"
    by (simp add: format_def)
  ultimately show ?thesis
    using edge_add_context by (simp add: edge_result_def)
qed

text \<open>
  C10, amended. The output of \<open>format\<close> is determined by the members of the show set
  that lie in \<open>[0, len(lines))\<close> together with whether the show set is empty: replacing
  the show set by one with the same members on the real lines, empty only if the old
  one was, leaves the output as it is. \<open>format\<close> reads lines through the enumeration of
  \<open>self.lines\<close> only, so no member of the show set is ever used as an index.
\<close>

theorem format_in_range_only:
  assumes "S \<inter> {0..<int (length (lines tc))} = show_lines tc \<inter> {0..<int (length (lines tc))}"
    and "S = {} \<longleftrightarrow> show_lines tc = {}"
  shows "format (tc\<lparr>show_lines := S\<rparr>) = format tc"
proof (cases "show_lines tc = {}")
  case True
  with assms(2) show ?thesis by (simp add: format_def)
next
  case False
  with assms(2) have ne: "S \<noteq> {}" by simp
  have mem: "(x \<in> S) = (x \<in> show_lines tc)" if "0 \<le> x" "x < int (length (lines tc))" for x
    using assms(1) that by (auto simp: set_eq_iff)
  have all: "\<forall>(i, l)\<in>set (enumerate 0 (lines tc)). (int i \<in> S) = (int i \<in> show_lines tc)"
    by (auto simp: in_set_enumerate_eq intro!: mem)
  show ?thesis
  proof (cases "lines tc = []")
    case True
    with False ne show ?thesis by (simp add: format_def)
  next
    case nonempty: False
    then have "(0 \<in> S) = (0 \<in> show_lines tc)"
      by (intro mem) simp_all
    with False ne format_loop_show[OF all] show ?thesis
      by (simp add: format_def)
  qed
qed

theorem format_in_range_only_witness:
  "{- 3, 0, 1, 2, 3, 4, 5, 8, 9, 40} \<inter> {0..<int (length (lines ex_result))}
     = show_lines ex_result \<inter> {0..<int (length (lines ex_result))} \<and>
   {- 3, 0, 1, 2, 3, 4, 5, 8, 9, 40 :: int} \<noteq> {} \<and> show_lines ex_result \<noteq> {} \<and>
   format (ex_result\<lparr>show_lines := {- 3, 0, 1, 2, 3, 4, 5, 8, 9, 40}\<rparr>) = format ex_result"
proof -
  have 1: "{- 3, 0, 1, 2, 3, 4, 5, 8, 9, 40} \<inter> {0..<int (length (lines ex_result))}
           = show_lines ex_result \<inter> {0..<int (length (lines ex_result))}"
    by code_simp
  have 2: "{- 3, 0, 1, 2, 3, 4, 5, 8, 9, 40 :: int} \<noteq> {}" "show_lines ex_result \<noteq> {}"
    by (simp_all add: ex_result_def)
  then have 3: "{- 3, 0, 1, 2, 3, 4, 5, 8, 9, 40 :: int} = {} \<longleftrightarrow> show_lines ex_result = {}"
    by simp
  from format_in_range_only[OF 1 3] 1 2 show ?thesis by simp
qed

text \<open>
  C9. After construction, for every line \<open>i\<close> in \<open>[0, N]\<close> and every scope start \<open>s\<close>
  recorded for \<open>i\<close>: \<open>s \<le> i\<close>, and \<open>get_last_line_of_scope(s)\<close> returns a row that is at
  least \<open>i\<close>.
\<close>

theorem scope_containment:
  assumes "TreeContext_init lang_known code_lines root_node cfg = Inr tc"
    and "i \<le> length code_lines" and "s \<in> scopes tc ! i"
  shows "s \<le> int i \<and> (\<exists>e. get_last_line_of_scope tc s = Inr e \<and> int i \<le> e)"
proof -
  from assms(1) obtain t where
    w: "walk_tree root_node (empty_tables (length code_lines + 1)) = Inr t"
    and tc: "tc = build_context cfg code_lines t"
    by (auto simp: TreeContext_init_def split: if_splits sum.splits)
  from walk_tree_tables_ok(1)[OF w tables_ok_empty]
  have ok: "tables_ok t" and len: "length (idx_scopes t) = length code_lines + 1"
    by (simp_all add: empty_tables_def)
  from assms(2,3) len tc have i: "i < length (idx_scopes t)" and s: "s \<in> idx_scopes t ! i"
    by (simp_all add: build_context_def)
  with ok obtain n where o: "0 \<le> s" "s \<le> int i"
    and n: "n \<in> set (idx_nodes t ! nat s)" "int i \<le> int (end_line n)"
    and ln: "length (idx_nodes t) = length (idx_scopes t)"
    unfolding tables_ok_def by blast
  from o i ln have "py_index (nodes tc) s = Inr (idx_nodes t ! nat s)"
    by (simp add: py_index_def tc build_context_def)
  moreover from n obtain m rest where mr: "idx_nodes t ! nat s = m # rest"
    by (cases "idx_nodes t ! nat s") auto
  ultimately have g: "get_last_line_of_scope tc s
                      = Inr (int (fold max (map end_line rest) (end_line m)))"
    by (simp add: get_last_line_of_scope_def)
  from fold_max_ge[of "end_line m" "map end_line rest"] n(1) mr
  have "end_line n \<le> fold max (map end_line rest) (end_line m)"
    by auto
  with g n(2) o show ?thesis by simp
qed

theorem scope_containment_witness:
  "TreeContext_init True ex_lines ex_tree default_config = Inr ex_fresh \<and>
   3 \<le> length ex_lines \<and> 1 \<in> scopes ex_fresh ! 3 \<and>
   (1::int) \<le> int 3 \<and> get_last_line_of_scope ex_fresh 1 = Inr 5 \<and> int 3 \<le> 5"
proof -
  have l: "3 \<le> length ex_lines"
    by (simp add: ex_lines_def)
  have s: "1 \<in> scopes ex_fresh ! 3"
    by code_simp
  have g: "get_last_line_of_scope ex_fresh 1 = Inr 5"
    by code_simp
  from scope_containment[OF ex_init l s] g ex_init l s show ?thesis
    by simp
qed

text \<open>
  C1, as the claim states it, fails twice. \<open>__init__\<close> sorts the candidates of a line in
  ascending order and takes the first, so the header comes from the smallest candidate,
  not the largest; and it does so only when the line has more than one candidate, a
  line with a single candidate getting the one-line header. In the nine-line file line 0
  has the single candidate \<open>(9, 0, 9)\<close> and line 1 the candidates \<open>(4, 1, 5)\<close> and
  \<open>(1, 1, 2)\<close>; \<open>claimed_header\<close> follows the words of the claim.
\<close>

theorem header_largest_counterexample:
  "TreeContext_init True ex_lines ex_tree default_config = Inr ex_fresh \<and>
   header_candidates ex_tree 0 = [(9, 0, 9)] \<and>
   claimed_header 10 0 [(9, 0, 9)] = (0, 9) \<and> header ex_fresh ! 0 = (0, 1) \<and>
   header_candidates ex_tree 1 = [(4, 1, 5), (1, 1, 2)] \<and>
   claimed_header 10 1 [(4, 1, 5), (1, 1, 2)] = (1, 5) \<and> header ex_fresh ! 1 = (1, 2)"
proof -
  have "header_candidates ex_tree 0 = [(9, 0, 9)]"
    by code_simp
  moreover have "claimed_header 10 0 [(9, 0, 9)] = (0, 9)"
    by code_simp
  moreover have "header ex_fresh ! 0 = (0, 1)"
    by code_simp
  moreover have "header_candidates ex_tree 1 = [(4, 1, 5), (1, 1, 2)]"
    by code_simp
  moreover have "claimed_header 10 1 [(4, 1, 5), (1, 1, 2)] = (1, 5)"
    by code_simp
  moreover have "header ex_fresh ! 1 = (1, 2)"
    by code_simp
  ultimately show ?thesis using ex_init by simp
qed

text \<open>
  C1, amended. After construction, for every line \<open>i\<close> with at least two recorded
  multi-line header candidates, the header of \<open>i\<close> is derived from a candidate of the
  smallest size, its end being that candidate's end line, clamped to
  \<open>head_start + header_max\<close> when the size exceeds \<open>header_max\<close>; for every line with fewer
  than two candidates the header is \<open>[i, i + 1)\<close>.
\<close>

theorem header_from_smallest_candidate:
  assumes "TreeContext_init lang_known code_lines root_node cfg = Inr tc"
    and "i \<le> length code_lines"
  shows "(2 \<le> length (header_candidates root_node i) \<longrightarrow>
            (\<exists>c\<in>set (header_candidates root_node i).
               (\<forall>c'\<in>set (header_candidates root_node i). fst c \<le> fst c') \<and>
               header tc ! i
               = (fst (snd c),
                  if fst c > header_max tc then fst (snd c) + header_max tc else snd (snd c)))) \<and>
         (length (header_candidates root_node i) < 2 \<longrightarrow> header tc ! i = (int i, int i + 1))"
proof -
  from assms(1) obtain t where
    w: "walk_tree root_node (empty_tables (length code_lines + 1)) = Inr t"
    and tc: "tc = build_context cfg code_lines t"
    by (auto simp: TreeContext_init_def split: if_splits sum.splits)
  from assms(2) have i: "i < length code_lines + 1" by simp
  from walk_tree_candidates[OF w i]
  have len: "length (idx_header t) = length code_lines + 1"
    and c: "idx_header t ! i = header_candidates root_node i"
    by auto
  from i len have "header tc ! i = finalize_header (header_max cfg) i (idx_header t ! i)"
    by (simp add: tc build_context_def nth_enumerate_eq)
  moreover have "header_max tc = header_max cfg"
    by (simp add: tc build_context_def)
  ultimately have h: "header tc ! i
                      = finalize_header (header_max tc) i (header_candidates root_node i)"
    using c by simp
  show ?thesis
    unfolding h by (rule finalize_header_cases)
qed

theorem header_from_smallest_candidate_witness:
  "TreeContext_init True ex_lines ex_tree default_config = Inr ex_fresh \<and>
   1 \<le> length ex_lines \<and> 0 \<le> length ex_lines \<and>
   header_candidates ex_tree 1 = [(4, 1, 5), (1, 1, 2)] \<and> header ex_fresh ! 1 = (1, 2) \<and>
   header_candidates ex_tree 0 = [(9, 0, 9)] \<and> header ex_fresh ! 0 = (0, 1)"
proof -
  have l: "1 \<le> length ex_lines" "0 \<le> length ex_lines"
    by (simp_all add: ex_lines_def)
  have c1: "header_candidates ex_tree 1 = [(4, 1, 5), (1, 1, 2)]"
    and c0: "header_candidates ex_tree 0 = [(9, 0, 9)]"
    by code_simp+
  have hm: "header_max ex_fresh = 10"
    by (simp add: ex_fresh_def build_context_def default_config_def)
  from header_from_smallest_candidate[OF ex_init l(1)]
  have "header ex_fresh ! 1 = (1, 2)"
    unfolding c1 hm by auto
  moreover from header_from_smallest_candidate[OF ex_init l(2)]
  have "header ex_fresh ! 0 = (0, 1)"
    unfolding c0 by simp
  ultimately show ?thesis using ex_init l c1 c0 by simp
qed

text \<open>
  C6, as the claim states it, fails: in \<open>add_parent_scopes\<close> the recursion into the
  closing line of a scope stands under \<open>if self.last_line\<close>, so with that flag off it does
  not happen. In the eight-line file with \<open>last_line\<close> off, line 2 of interest lies in
  the scope that starts on line 1 and closes on line 5; line 5 is never processed, and
  the header of the block that starts there is not shown.
\<close>

theorem parent_recursion_counterexample:
  "add_context [2] else_query = Inr else_result \<and>
   parent_context else_query \<and> \<not> last_line else_query \<and>
   2 \<in> lines_of_interest else_query \<and> py_index (scopes else_query) 2 = Inr {0, 1} \<and>
   get_last_line_of_scope else_query 1 = Inr 5 \<and>
   5 \<notin> done_parent_scopes else_result \<and> 5 \<notin> show_lines else_result"
proof -
  have "parent_context else_query \<and> \<not> last_line else_query \<and>
        2 \<in> lines_of_interest else_query"
    by (simp add: else_query_def add_lines_of_interest_def build_context_def
        default_config_def)
  moreover have "py_index (scopes else_query) 2 = Inr {0, 1}"
    by code_simp
  moreover have "get_last_line_of_scope else_query 1 = Inr 5"
    by code_simp
  moreover have "5 \<notin> done_parent_scopes else_result \<and> 5 \<notin> show_lines else_result"
    by (simp add: else_result_def)
  ultimately show ?thesis using else_add_context by simp
qed

text \<open>
  C6, amended. With \<open>parent_context\<close> and \<open>last_line\<close> both enabled, whenever \<open>add_context\<close>
  returns, in whatever order \<open>visit\<close> its child-context loop enumerates the lines of
  interest, every line of interest has been processed by \<open>add_parent_scopes\<close>, and for
  every processed line within the tables and every scope start \<open>s\<close> recorded for it the
  header range of \<open>s\<close> is shown (unless it starts at line 0 and top-of-file headers are
  off) and the closing line of \<open>s\<close> has been processed as well: the set of processed
  lines is closed under going from a line to the closing lines of its scopes.
\<close>

theorem parent_scopes_transitive:
  assumes "add_context visit tc = Inr tc'" and "parent_context tc" and "last_line tc"
    and "lines_of_interest tc \<noteq> {}" and "set visit = lines_of_interest tc"
    and "\<forall>sc\<in>set (scopes tc). finite sc"
  shows "lines_of_interest tc \<subseteq> done_parent_scopes tc' \<and>
         (\<forall>j\<in>done_parent_scopes tc'. j < int (length (scopes tc)) \<longrightarrow>
            (\<exists>sc. py_index (scopes tc) j = Inr sc \<and>
               (\<forall>s\<in>sc. \<exists>hr e. py_index (header tc) s = Inr hr \<and>
                  (fst hr > 0 \<or> show_top_of_file_parent_scope tc \<longrightarrow>
                     set (py_range (fst hr) (snd hr)) \<subseteq> show_lines tc') \<and>
                  get_last_line_of_scope tc s = Inr e \<and> e \<in> done_parent_scopes tc')))"
proof -
  from assms(1,4) obtain tc1 tc2 tc3 where
    1: "step_last_line (step_pad (reset_context tc)) = Inr tc1"
    and 2: "step_parents tc1 = Inr tc2"
    and 3: "step_children visit tc2 = Inr tc3"
    and 4: "close_small_gaps (step_margin tc3) = Inr tc'"
    by (auto simp: add_context_def split: sum.splits)
  let ?t0 = "step_pad (reset_context tc)"
  have x0: "extends (reset_context tc) ?t0" by (rule step_pad_extends)
  have c: "closing (reset_context tc)"
    using assms(3,6) by (simp add: closing_def reset_context_def)
  have d: "all_done (reset_context tc)"
    by (simp add: all_done_def reset_context_def)
  have d0': "done_parent_scopes ?t0 = {}"
  proof -
    have "done_parent_scopes (pad_line t ls) = done_parent_scopes t" for t ls
      by (induction ls arbitrary: t) auto
    then have "done_parent_scopes (pad_lines t ls) = done_parent_scopes t" for t ls
      by (induction ls arbitrary: t) auto
    then show ?thesis by (simp add: step_pad_def reset_context_def)
  qed
  have c0: "closing ?t0" using x0 c by (rule closing_extends)
  have d0: "all_done ?t0" using d0' by (simp add: all_done_def)
  have l0: "last_line ?t0" using c0 by (simp add: closing_def)
  let ?t0' = "?t0\<lparr>show_lines := insert (num_lines ?t0 - 2) (show_lines ?t0)\<rparr>"
  from 1 l0 have a1: "add_parent_scopes ?t0' (num_lines ?t0 - 2) = Inr tc1"
    by (simp add: step_last_line_def)
  have "closing ?t0'" using c0 by (simp add: closing_def)
  moreover have "all_done ?t0'" using d0' by (simp add: all_done_def)
  ultimately have d1: "all_done tc1"
    using add_parent_scopes_all_done[OF a1] by simp
  have x1: "extends (reset_context tc) tc1"
    using x0 step_last_line_extends[OF 1] by (rule extends_trans)
  then have f1: "frame tc1 = frame tc" by (simp add: extends_def)
  have c1: "closing tc1" using x1 c by (rule closing_extends)
  from 2 assms(2) frame_fields(10,7)[OF f1]
  have p: "parent_scopes_all tc1 (sorted_list_of_set (lines_of_interest tc)) = Inr tc2"
    by (simp add: step_parents_def)
  have fin: "finite (lines_of_interest tc)"
    using assms(5)[symmetric] by simp
  from parent_scopes_all_all_done[OF p c1 d1] fin
  have d2: "all_done tc2" and loi: "lines_of_interest tc \<subseteq> done_parent_scopes tc2"
    by simp_all
  have x2: "extends tc1 tc2" by (rule step_parents_extends[OF 2])
  have c2: "closing tc2" using x2 c1 by (rule closing_extends)
  have d3: "all_done tc3"
  proof (cases "child_context tc2")
    case True
    with 3 have "child_context_all tc2 visit = Inr tc3"
      by (simp add: step_children_def)
    from child_context_all_all_done[OF this c2 d2] show ?thesis .
  next
    case False
    with 3 d2 show ?thesis by (simp add: step_children_def)
  qed
  have x3: "extends tc2 tc3" by (rule step_children_extends[OF 3])
  have x4: "extends tc3 tc'"
    using step_margin_extends close_small_gaps_extends[OF 4] by (rule extends_trans)
  have "done_parent_scopes (step_margin tc3) = done_parent_scopes tc3"
    by (simp add: step_margin_def)
  moreover from 4 obtain S where "tc' = (step_margin tc3)\<lparr>show_lines := S\<rparr>"
    by (auto simp: close_small_gaps_def split: sum.splits)
  ultimately have "done_parent_scopes tc' = done_parent_scopes tc3"
    by simp
  with d3 x4 have d': "all_done tc'" by (rule all_done_same_done)
  have f': "frame tc' = frame tc"
    using x1 x2 x3 x4 by (simp add: extends_def)
  from loi x3 x4 have "lines_of_interest tc \<subseteq> done_parent_scopes tc'"
    by (auto simp: extends_def)
  moreover have "\<exists>sc. py_index (scopes tc) j = Inr sc \<and>
               (\<forall>s\<in>sc. \<exists>hr e. py_index (header tc) s = Inr hr \<and>
                  (fst hr > 0 \<or> show_top_of_file_parent_scope tc \<longrightarrow>
                     set (py_range (fst hr) (snd hr)) \<subseteq> show_lines tc') \<and>
                  get_last_line_of_scope tc s = Inr e \<and> e \<in> done_parent_scopes tc')"
    if "j \<in> done_parent_scopes tc'" "j < int (length (scopes tc))" for j
  proof -
    from d' that(1) have "line_done tc' j" by (simp add: all_done_def)
    with that(2) frame_fields(1,2,16)[OF f'] get_last_line_frame[OF f'] show ?thesis
      unfolding line_done_def scope_done_def by simp
  qed
  ultimately show ?thesis by blast
qed

theorem parent_scopes_transitive_witness:
  "add_context [8, 1] pair_query = Inr pair_result \<and>
   parent_context pair_query \<and> last_line pair_query \<and>
   lines_of_interest pair_query = {1, 8} \<and> set [8, 1] = lines_of_interest pair_query \<and>
   scopes pair_query = idx_scopes pair_tables \<and>
   8 \<in> done_parent_scopes pair_result \<and> py_index (scopes pair_query) 8 = Inr {0, 1, 8} \<and>
   py_index (header pair_query) 8 = Inr (8, 9) \<and> 8 \<in> show_lines pair_result \<and>
   get_last_line_of_scope pair_query 8 = Inr 12 \<and> 12 \<in> done_parent_scopes pair_result"
proof -
  have ne: "lines_of_interest pair_query \<noteq> {}"
    and v: "set [8, 1] = lines_of_interest pair_query"
    by (auto simp: pair_facts(1))
  have fs: "\<forall>sc\<in>set (scopes pair_query). finite sc"
    by (simp add: pair_facts(7) pair_tables_def)
  have s: "py_index (scopes pair_query) 8 = Inr {0, 1, 8}"
    and h: "py_index (header pair_query) 8 = Inr (8, 9)"
    and g: "get_last_line_of_scope pair_query 8 = Inr 12"
    by code_simp+
  have len: "8 < int (length (scopes pair_query))"
    by (simp add: pair_facts(7) pair_tables_def)
  note t = parent_scopes_transitive[OF pair_add_context pair_facts(2,4) ne v fs]
  from t pair_facts(1) have d: "8 \<in> done_parent_scopes pair_result"
    by auto
  with t len s have "\<exists>hr e. py_index (header pair_query) 8 = Inr hr \<and>
        (fst hr > 0 \<or> show_top_of_file_parent_scope pair_query \<longrightarrow>
           set (py_range (fst hr) (snd hr)) \<subseteq> show_lines pair_result) \<and>
        get_last_line_of_scope pair_query 8 = Inr e \<and> e \<in> done_parent_scopes pair_result"
    by fastforce
  with h g have "8 \<in> show_lines pair_result \<and> 12 \<in> done_parent_scopes pair_result"
    by auto
  with pair_add_context pair_facts v s h g d show ?thesis by simp
qed

text \<open>
  C2. The code does not clip a line of interest that lies outside the tables. In the
  nine-line file (tables of ten rows), with the default configuration, line 10 of
  interest passes the guard of \<open>add_parent_scopes\<close> and then \<open>add_child_context\<close>
  subscripts \<open>self.nodes\<close> with it: \<open>add_context\<close> raises \<open>IndexError\<close>.
\<close>

theorem out_of_range_interest_raises:
  "add_context [10] (add_lines_of_interest ex_fresh {10}) = Inl IndexError"
  by (rule add_context_error) code_simp

end
